theory Spec2Isabelle
  imports Main
begin

section \<open>Data model\<close>

text \<open>
  The two search modules \<^verbatim>\<open>ucs_pathfinder.py\<close> and \<^verbatim>\<open>astar_pathfinder.py\<close> are embedded.
  A position is a pair of Python integers. The environment object is used through two
  members only: the dictionary \<^verbatim>\<open>MOVE_DELTAS\<close> (direction label to row/column delta) and
  the predicate \<^verbatim>\<open>_is_wall(r, c)\<close>. The class that provides them is not part of the
  modelled sources, so both are fields of a record and every theorem quantifies over them.
\<close>

type_synonym Position = "int \<times> int"

record env =
  MOVE_DELTAS :: "string \<Rightarrow> int \<times> int"
  is_wall :: "int \<Rightarrow> int \<Rightarrow> bool"

text \<open>The statistics dictionary, without the wall-clock entry \<^verbatim>\<open>time_ms\<close>.\<close>

record stats =
  nodes_expanded :: int
  path_length :: "nat option"
  frontier_peak :: nat

type_synonym result = "Position list option \<times> stats"

text \<open>
  The local variables of a search call. \<open>peak\<close> is the local \<^verbatim>\<open>frontier_peak\<close>,
  \<open>expansions\<close> the local \<^verbatim>\<open>nodes_expanded\<close>. \<open>created\<close> counts the \<^verbatim>\<open>Node\<close> objects
  constructed so far; it indexes the identity sequence described below.
\<close>

record ('n, 'e) locals =
  frontier :: "(int \<times> nat \<times> 'n) list"
  explored :: 'e
  peak :: nat
  expansions :: int
  created :: nat

section \<open>The frontier\<close>

text \<open>
  Frontier entries are the tuples \<^verbatim>\<open>(priority, id(node), node)\<close>. The module \<^verbatim>\<open>heapq\<close>
  is used through its contract: \<^verbatim>\<open>heappush\<close> adds an entry, \<^verbatim>\<open>heappop\<close> removes and
  returns a smallest entry in Python's tuple order. Two entries are compared on the
  priority, then on the identity; the nodes themselves are compared (by \<^verbatim>\<open>__lt__\<close>) only
  when both agree, which cannot happen for two objects alive at the same time. Among
  entries that agree on both, the model takes the one pushed first.

  The value of \<^verbatim>\<open>id(node)\<close> is chosen by the Python runtime. It is a parameter here:
  \<open>ident k\<close> is the identity of the \<open>k\<close>-th node object constructed by the call.
\<close>

type_synonym 'n entry = "int \<times> nat \<times> 'n"

definition entry_le :: "'n entry \<Rightarrow> 'n entry \<Rightarrow> bool" where
  "entry_le a b \<longleftrightarrow> fst a < fst b \<or> (fst a = fst b \<and> fst (snd a) \<le> fst (snd b))"

fun least_entry :: "'n entry \<Rightarrow> 'n entry list \<Rightarrow> 'n entry" where
  "least_entry m [] = m"
| "least_entry m (e # es) = least_entry (if entry_le m e then m else e) es"

definition heappush :: "'n entry list \<Rightarrow> 'n entry \<Rightarrow> 'n entry list" where
  "heappush fr e = fr @ [e]"

fun heappop :: "'n entry list \<Rightarrow> ('n entry \<times> 'n entry list) option" where
  "heappop [] = None"
| "heappop (e # es) = (let m = least_entry e es in Some (m, remove1 m (e # es)))"

section \<open>Uniform cost search\<close>

datatype node = Node (position: Position) (parent: "node option")
  (action: "string option") (g: int)

text \<open>
  \<^verbatim>\<open>Node.path\<close> follows the parent links by recursion, as deep as the path is long. The
  interpreter's limit on the recursion depth is not modelled.
\<close>

fun path :: "node \<Rightarrow> Position list" where
  "path (Node p None a c) = [p]"
| "path (Node p (Some n) a c) = path n @ [p]"

type_synonym ucs_locals = "(node, Position \<rightharpoonup> int) locals"

text \<open>The \<^verbatim>\<open>for act in ["N", "E", "S", "W"]\<close> loop of one expansion.\<close>

fun ucs_expand :: "env \<Rightarrow> (Position \<rightharpoonup> int) \<Rightarrow> (nat \<Rightarrow> nat) \<Rightarrow> node \<Rightarrow> string list
    \<Rightarrow> node entry list \<times> nat \<Rightarrow> node entry list \<times> nat" where
  "ucs_expand e ex ident nd [] (fr, k) = (fr, k)"
| "ucs_expand e ex ident nd (act # acts) (fr, k) =
    (let (r, c) = position nd;
         (dr, dc) = MOVE_DELTAS e act;
         nr = r + dr; nc = c + dc
     in if is_wall e nr nc then ucs_expand e ex ident nd acts (fr, k)
        else
          let child_pos = (nr, nc); child_g = g nd + 1
          in if (case ex child_pos of None \<Rightarrow> True | Some c' \<Rightarrow> c' > child_g)
             then ucs_expand e ex ident nd acts
                    (heappush fr (child_g, ident k, Node child_pos (Some nd) (Some act) child_g),
                     Suc k)
             else ucs_expand e ex ident nd acts (fr, k))"

declare ucs_expand.simps [simp del]

text \<open>
  One pass through the \<^verbatim>\<open>while frontier\<close> loop: \<open>Inr\<close> is a return (or leaving the loop
  to the final return), \<open>Inl\<close> the locals at the next loop test.
\<close>

definition ucs_body :: "(nat \<Rightarrow> nat) \<Rightarrow> Position \<Rightarrow> env \<Rightarrow> int \<Rightarrow> ucs_locals
    \<Rightarrow> ucs_locals + result" where
  "ucs_body ident goal e max_expansions st =
    (case heappop (frontier st) of
       None \<Rightarrow>
         Inr (None, \<lparr>nodes_expanded = expansions st, path_length = None,
                     frontier_peak = peak st\<rparr>)
     | Some ((cost, i, nd), fr) \<Rightarrow>
         if position nd = goal
         then Inr (Some (path nd),
                   \<lparr>nodes_expanded = expansions st, path_length = Some (length (path nd)),
                    frontier_peak = peak st\<rparr>)
         else if (case explored st (position nd) of None \<Rightarrow> False | Some c \<Rightarrow> c \<le> g nd)
         then Inl (st\<lparr>frontier := fr\<rparr>)
         else
           let ex = (explored st)(position nd \<mapsto> g nd);
               n = expansions st + 1
           in if n > max_expansions
              then Inr (None, \<lparr>nodes_expanded = n, path_length = None,
                               frontier_peak = peak st\<rparr>)
              else
                let (fr', k) = ucs_expand e ex ident nd [''N'', ''E'', ''S'', ''W'']
                                 (fr, created st)
                in Inl \<lparr>frontier = fr', explored = ex, peak = max (peak st) (length fr'),
                        expansions = n, created = k\<rparr>)"

function ucs_loop :: "(nat \<Rightarrow> nat) \<Rightarrow> Position \<Rightarrow> env \<Rightarrow> int \<Rightarrow> ucs_locals \<Rightarrow> result" where
  "ucs_loop ident goal e max_expansions st =
    (case ucs_body ident goal e max_expansions st of
       Inr res \<Rightarrow> res
     | Inl st' \<Rightarrow> ucs_loop ident goal e max_expansions st')"
  by pat_completeness auto
termination
proof (relation "inv_image (less_than <*lex*> less_than)
        (\<lambda>(ident, goal, e, cap, st). (nat (cap - expansions st), length (frontier st)))",
       goal_cases)
  case 1
  show ?case
    by (intro wf_inv_image wf_lex_prod wf_less_than)
next
  case (2 ident goal e cap st st')
  have mem: "least_entry m xs \<in> set (m # xs)" for m :: "node entry" and xs
    by (induction xs arbitrary: m) auto
  have pop: "length fr' < length fr" if "heappop fr = Some (m, fr')"
    for fr fr' :: "node entry list" and m
  proof (cases fr)
    case Nil
    with that show ?thesis by simp
  next
    case (Cons x xs)
    with that have "fr' = remove1 (least_entry x xs) (x # xs)"
      by (auto simp: Let_def)
    with mem [of x xs] Cons show ?thesis
      by (simp only: length_remove1) simp
  qed
  from 2 consider "expansions st' = expansions st" "length (frontier st') < length (frontier st)"
    | "expansions st' = expansions st + 1" "expansions st' \<le> cap"
    unfolding ucs_body_def Let_def
    by (auto split: option.splits if_splits prod.splits dest: pop)
  then show ?case
  proof cases
    case 1
    then show ?thesis by simp
  next
    case 2
    then have "nat (cap - expansions st') < nat (cap - expansions st)" by linarith
    then show ?thesis by simp
  qed
qed

declare ucs_loop.simps [simp del]

definition uniformcost_search :: "(nat \<Rightarrow> nat) \<Rightarrow> Position \<Rightarrow> Position \<Rightarrow> env \<Rightarrow> int \<Rightarrow> result" where
  "uniformcost_search ident start goal e max_expansions =
    (let start_node = Node start None None 0;
         frontier0 = heappush [] (0, ident 0, start_node)
     in ucs_loop ident goal e max_expansions
          \<lparr>frontier = frontier0, explored = Map.empty, peak = 1, expansions = 0,
           created = 1\<rparr>)"

section \<open>A* search\<close>

text \<open>
  The node class of \<^verbatim>\<open>astar_pathfinder.py\<close>. The attribute \<^verbatim>\<open>f\<close> is set once, to
  \<^verbatim>\<open>g + h\<close>, in the constructor and never assigned again, so it is a function of the node.
\<close>

datatype anode = ANode (a_position: Position) (a_parent: "anode option")
  (a_action: "string option") (a_g: int) (a_h: int)

definition a_f :: "anode \<Rightarrow> int" where
  "a_f n = a_g n + a_h n"

fun a_path :: "anode \<Rightarrow> Position list" where
  "a_path (ANode p None a c d) = [p]"
| "a_path (ANode p (Some n) a c d) = a_path n @ [p]"

definition manhattan_distance :: "Position \<Rightarrow> Position \<Rightarrow> int" where
  "manhattan_distance pos goal = \<bar>fst pos - fst goal\<bar> + \<bar>snd pos - snd goal\<bar>"

type_synonym astar_locals = "(anode, Position set) locals"

fun astar_expand :: "env \<Rightarrow> Position set \<Rightarrow> (nat \<Rightarrow> nat) \<Rightarrow> (Position \<Rightarrow> Position \<Rightarrow> int)
    \<Rightarrow> Position \<Rightarrow> anode \<Rightarrow> string list \<Rightarrow> anode entry list \<times> nat
    \<Rightarrow> anode entry list \<times> nat" where
  "astar_expand e ex ident heuristic goal nd [] (fr, k) = (fr, k)"
| "astar_expand e ex ident heuristic goal nd (act # acts) (fr, k) =
    (let (r, c) = a_position nd;
         (dr, dc) = MOVE_DELTAS e act;
         nr = r + dr; nc = c + dc
     in if is_wall e nr nc then astar_expand e ex ident heuristic goal nd acts (fr, k)
        else
          let child_pos = (nr, nc)
          in if child_pos \<in> ex then astar_expand e ex ident heuristic goal nd acts (fr, k)
             else
               let child_g = a_g nd + 1;
                   child_h = heuristic child_pos goal;
                   child_node = ANode child_pos (Some nd) (Some act) child_g child_h
               in astar_expand e ex ident heuristic goal nd acts
                    (heappush fr (a_f child_node, ident k, child_node), Suc k))"

declare astar_expand.simps [simp del]

definition astar_body :: "(nat \<Rightarrow> nat) \<Rightarrow> Position \<Rightarrow> env \<Rightarrow> (Position \<Rightarrow> Position \<Rightarrow> int)
    \<Rightarrow> int \<Rightarrow> astar_locals \<Rightarrow> astar_locals + result" where
  "astar_body ident goal e heuristic max_expansions st =
    (case heappop (frontier st) of
       None \<Rightarrow>
         Inr (None, \<lparr>nodes_expanded = expansions st, path_length = None,
                     frontier_peak = peak st\<rparr>)
     | Some ((f, i, nd), fr) \<Rightarrow>
         if a_position nd = goal
         then Inr (Some (a_path nd),
                   \<lparr>nodes_expanded = expansions st, path_length = Some (length (a_path nd)),
                    frontier_peak = peak st\<rparr>)
         else if a_position nd \<in> explored st
         then Inl (st\<lparr>frontier := fr\<rparr>)
         else
           let ex = insert (a_position nd) (explored st);
               n = expansions st + 1
           in if n > max_expansions
              then Inr (None, \<lparr>nodes_expanded = n, path_length = None,
                               frontier_peak = peak st\<rparr>)
              else
                let (fr', k) = astar_expand e ex ident heuristic goal nd
                                 [''N'', ''E'', ''S'', ''W''] (fr, created st)
                in Inl \<lparr>frontier = fr', explored = ex, peak = max (peak st) (length fr'),
                        expansions = n, created = k\<rparr>)"

function astar_loop :: "(nat \<Rightarrow> nat) \<Rightarrow> Position \<Rightarrow> env \<Rightarrow> (Position \<Rightarrow> Position \<Rightarrow> int)
    \<Rightarrow> int \<Rightarrow> astar_locals \<Rightarrow> result" where
  "astar_loop ident goal e heuristic max_expansions st =
    (case astar_body ident goal e heuristic max_expansions st of
       Inr res \<Rightarrow> res
     | Inl st' \<Rightarrow> astar_loop ident goal e heuristic max_expansions st')"
  by pat_completeness auto
termination
proof (relation "inv_image (less_than <*lex*> less_than)
        (\<lambda>(ident, goal, e, h, cap, st). (nat (cap - expansions st), length (frontier st)))",
       goal_cases)
  case 1
  show ?case
    by (intro wf_inv_image wf_lex_prod wf_less_than)
next
  case (2 ident goal e h cap st st')
  have mem: "least_entry m xs \<in> set (m # xs)" for m :: "anode entry" and xs
    by (induction xs arbitrary: m) auto
  have pop: "length fr' < length fr" if "heappop fr = Some (m, fr')"
    for fr fr' :: "anode entry list" and m
  proof (cases fr)
    case Nil
    with that show ?thesis by simp
  next
    case (Cons x xs)
    with that have "fr' = remove1 (least_entry x xs) (x # xs)"
      by (auto simp: Let_def)
    with mem [of x xs] Cons show ?thesis
      by (simp only: length_remove1) simp
  qed
  from 2 consider "expansions st' = expansions st" "length (frontier st') < length (frontier st)"
    | "expansions st' = expansions st + 1" "expansions st' \<le> cap"
    unfolding astar_body_def Let_def
    by (auto split: option.splits if_splits prod.splits dest: pop)
  then show ?case
  proof cases
    case 1
    then show ?thesis by simp
  next
    case 2
    then have "nat (cap - expansions st') < nat (cap - expansions st)" by linarith
    then show ?thesis by simp
  qed
qed

declare astar_loop.simps [simp del]

definition astar_search :: "(nat \<Rightarrow> nat) \<Rightarrow> Position \<Rightarrow> Position \<Rightarrow> env
    \<Rightarrow> (Position \<Rightarrow> Position \<Rightarrow> int) \<Rightarrow> int \<Rightarrow> result" where
  "astar_search ident start goal e heuristic max_expansions =
    (let h_start = heuristic start goal;
         start_node = ANode start None None 0 h_start;
         frontier0 = heappush [] (a_f start_node, ident 0, start_node)
     in astar_loop ident goal e heuristic max_expansions
          \<lparr>frontier = frontier0, explored = {}, peak = 1, expansions = 0, created = 1\<rparr>)"

section \<open>Running the loop body a bounded number of times\<close>


text \<open>The locals with which each search enters its loop.\<close>

definition ucs_init :: "(nat \<Rightarrow> nat) \<Rightarrow> Position \<Rightarrow> ucs_locals" where
  "ucs_init ident start =
    \<lparr>frontier = heappush [] (0, ident 0, Node start None None 0), explored = Map.empty,
     peak = 1, expansions = 0, created = 1\<rparr>"

definition astar_init :: "(nat \<Rightarrow> nat) \<Rightarrow> Position \<Rightarrow> Position
    \<Rightarrow> (Position \<Rightarrow> Position \<Rightarrow> int) \<Rightarrow> astar_locals" where
  "astar_init ident start goal heuristic =
    \<lparr>frontier = heappush [] (a_f (ANode start None None 0 (heuristic start goal)), ident 0,
                   ANode start None None 0 (heuristic start goal)),
     explored = {}, peak = 1, expansions = 0, created = 1\<rparr>"

text \<open>States the loop passes through, starting from a given one.\<close>

inductive reaches :: "('s \<Rightarrow> 's + 'r) \<Rightarrow> 's \<Rightarrow> 's \<Rightarrow> bool" for body :: "'s \<Rightarrow> 's + 'r" where
  reaches_refl: "reaches body s s"
| reaches_step: "reaches body s t \<Longrightarrow> body t = Inl u \<Longrightarrow> reaches body s u"

section \<open>Grids, moves and routes\<close>

text \<open>
  Modelled from the spec: the environment class itself is not among the modelled sources.
  The spec describes \<^verbatim>\<open>MOVE_DELTAS\<close> as a fixed table from the four direction labels to
  row/column deltas and \<^verbatim>\<open>_is_wall\<close> as true for out-of-bounds cells and for obstacles.
  \<open>cardinal_deltas\<close> is the table with north as the decreasing row, as the callers in
  \<^verbatim>\<open>warehouse_agent_reflex.py\<close> use it; \<open>grid_env rows cols obstacles\<close> is a grid of that
  size. They serve as concrete environments; the theorems hold for every environment.
\<close>

definition cardinal_deltas :: "string \<Rightarrow> int \<times> int" where
  "cardinal_deltas act =
    (if act = ''N'' then (-1, 0) else if act = ''E'' then (0, 1)
     else if act = ''S'' then (1, 0) else (0, -1))"

definition grid_env :: "int \<Rightarrow> int \<Rightarrow> Position list \<Rightarrow> env" where
  "grid_env rows cols obstacles =
    \<lparr>MOVE_DELTAS = cardinal_deltas,
     is_wall = (\<lambda>r c. r < 0 \<or> rows \<le> r \<or> c < 0 \<or> cols \<le> c \<or> (r, c) \<in> set obstacles)\<rparr>"

text \<open>Every move of the table changes exactly one coordinate by one.\<close>

definition unit_moves :: "env \<Rightarrow> bool" where
  "unit_moves e \<longleftrightarrow>
    (\<forall>act \<in> set [''N'', ''E'', ''S'', ''W''].
       \<bar>fst (MOVE_DELTAS e act)\<bar> + \<bar>snd (MOVE_DELTAS e act)\<bar> = 1)"

text \<open>
  \<open>move_to e p act\<close> is the cell that the move labelled \<open>act\<close> leads to from \<open>p\<close>, as
  both expansion loops compute it. \<open>is_move e p q\<close>: one of the four moves leads from \<open>p\<close>
  to \<open>q\<close>, and \<open>q\<close> is passable. A walk is a nonempty list of positions in which each one
  is followed by a move from it; a route from \<open>s\<close> to \<open>t\<close> is a walk that starts at \<open>s\<close>
  and ends at \<open>t\<close>.
\<close>

definition move_to :: "env \<Rightarrow> Position \<Rightarrow> string \<Rightarrow> Position" where
  "move_to e p act = (fst p + fst (MOVE_DELTAS e act), snd p + snd (MOVE_DELTAS e act))"

definition is_move :: "env \<Rightarrow> Position \<Rightarrow> Position \<Rightarrow> bool" where
  "is_move e p q \<longleftrightarrow>
    (\<exists>act \<in> set [''N'', ''E'', ''S'', ''W'']. q = move_to e p act)
    \<and> \<not> is_wall e (fst q) (snd q)"

fun walk :: "env \<Rightarrow> Position list \<Rightarrow> bool" where
  "walk e [] = False"
| "walk e [p] = True"
| "walk e (p # q # ps) = (is_move e p q \<and> walk e (q # ps))"

definition route :: "env \<Rightarrow> Position \<Rightarrow> Position \<Rightarrow> Position list \<Rightarrow> bool" where
  "route e s t ps \<longleftrightarrow> walk e ps \<and> hd ps = s \<and> last ps = t"

definition reachable :: "env \<Rightarrow> Position \<Rightarrow> Position set" where
  "reachable e s = {t. \<exists>ps. route e s t ps}"

text \<open>\<open>shortest_cost e s t c\<close>: the least number of moves of a route from \<open>s\<close> to \<open>t\<close> is \<open>c\<close>.\<close>

definition shortest_cost :: "env \<Rightarrow> Position \<Rightarrow> Position \<Rightarrow> int \<Rightarrow> bool" where
  "shortest_cost e s t c \<longleftrightarrow>
    (\<exists>ps. route e s t ps \<and> int (length ps) = c + 1)
    \<and> (\<forall>ps. route e s t ps \<longrightarrow> c + 1 \<le> int (length ps))"

section \<open>Loop invariants\<close>

text \<open>
  Every frontier entry is keyed by the priority of its node, and the node's path is a
  route from the start to the node's position whose number of moves is the node's cost.
\<close>

definition ucs_nodes_ok :: "env \<Rightarrow> Position \<Rightarrow> node entry list \<Rightarrow> bool" where
  "ucs_nodes_ok e start fr \<longleftrightarrow>
    (\<forall>x \<in> set fr. fst x = g (snd (snd x))
       \<and> route e start (position (snd (snd x))) (path (snd (snd x)))
       \<and> int (length (path (snd (snd x)))) = g (snd (snd x)) + 1)"

definition astar_nodes_ok :: "env \<Rightarrow> Position \<Rightarrow> Position \<Rightarrow> (Position \<Rightarrow> Position \<Rightarrow> int)
    \<Rightarrow> anode entry list \<Rightarrow> bool" where
  "astar_nodes_ok e start goal h fr \<longleftrightarrow>
    (\<forall>x \<in> set fr. fst x = a_g (snd (snd x)) + h (a_position (snd (snd x))) goal
       \<and> route e start (a_position (snd (snd x))) (a_path (snd (snd x)))
       \<and> int (length (a_path (snd (snd x)))) = a_g (snd (snd x)) + 1)"

text \<open>
  The invariant of uniform cost search: recorded costs are shortest costs; the start is
  recorded or waits in the frontier at cost zero; a move from a recorded position leads to
  a recorded position or to one that waits in the frontier at a cost of at most one more;
  the goal is never recorded; no recorded cost exceeds the cost of a waiting node; and the
  counter is the number of recorded positions.
\<close>

definition ucs_inv :: "env \<Rightarrow> Position \<Rightarrow> Position \<Rightarrow> ucs_locals \<Rightarrow> bool" where
  "ucs_inv e start goal st \<longleftrightarrow>
     ucs_nodes_ok e start (frontier st)
   \<and> (\<forall>p c. explored st p = Some c \<longrightarrow> shortest_cost e start p c)
   \<and> (start \<in> dom (explored st)
        \<or> (\<exists>x \<in> set (frontier st). position (snd (snd x)) = start \<and> g (snd (snd x)) = 0))
   \<and> (\<forall>p c q. explored st p = Some c \<longrightarrow> is_move e p q \<longrightarrow>
         q \<in> dom (explored st)
         \<or> (\<exists>x \<in> set (frontier st). position (snd (snd x)) = q \<and> g (snd (snd x)) \<le> c + 1))
   \<and> goal \<notin> dom (explored st)
   \<and> (\<forall>p c. explored st p = Some c \<longrightarrow> (\<forall>x \<in> set (frontier st). c \<le> g (snd (snd x))))
   \<and> finite (dom (explored st))
   \<and> expansions st = int (card (dom (explored st)))"

text \<open>A heuristic is consistent when a move lowers it by at most one.\<close>

definition consistent :: "env \<Rightarrow> (Position \<Rightarrow> Position \<Rightarrow> int) \<Rightarrow> Position \<Rightarrow> bool" where
  "consistent e h goal \<longleftrightarrow> (\<forall>p q. is_move e p q \<longrightarrow> h p goal \<le> h q goal + 1)"

text \<open>
  The invariant of A* under a consistent heuristic, with the shortest costs in place of
  the costs that uniform cost search records, and the bound that the priority of an
  explored position does not exceed that of the goal.
\<close>

definition astar_inv :: "env \<Rightarrow> Position \<Rightarrow> Position \<Rightarrow> (Position \<Rightarrow> Position \<Rightarrow> int)
    \<Rightarrow> astar_locals \<Rightarrow> bool" where
  "astar_inv e start goal h st \<longleftrightarrow>
     astar_nodes_ok e start goal h (frontier st)
   \<and> explored st \<subseteq> reachable e start
   \<and> (start \<in> explored st
        \<or> (\<exists>x \<in> set (frontier st). a_position (snd (snd x)) = start \<and> a_g (snd (snd x)) = 0))
   \<and> (\<forall>p c q. p \<in> explored st \<longrightarrow> shortest_cost e start p c \<longrightarrow> is_move e p q \<longrightarrow>
         q \<in> explored st
         \<or> (\<exists>x \<in> set (frontier st). a_position (snd (snd x)) = q \<and> a_g (snd (snd x)) \<le> c + 1))
   \<and> goal \<notin> explored st
   \<and> (\<forall>p c C. p \<in> explored st \<longrightarrow> shortest_cost e start p c \<longrightarrow>
         shortest_cost e start goal C \<longrightarrow> c + h p goal \<le> C + h goal goal)
   \<and> finite (explored st)
   \<and> expansions st = int (card (explored st))"

text \<open>The part of it that holds for every heuristic.\<close>

definition astar_closure :: "env \<Rightarrow> Position \<Rightarrow> Position \<Rightarrow> (Position \<Rightarrow> Position \<Rightarrow> int)
    \<Rightarrow> astar_locals \<Rightarrow> bool" where
  "astar_closure e start goal h st \<longleftrightarrow>
     astar_nodes_ok e start goal h (frontier st)
   \<and> explored st \<subseteq> reachable e start
   \<and> (start \<in> explored st \<or> (\<exists>x \<in> set (frontier st). a_position (snd (snd x)) = start))
   \<and> (\<forall>p q. p \<in> explored st \<longrightarrow> is_move e p q \<longrightarrow>
         q \<in> explored st \<or> (\<exists>x \<in> set (frontier st). a_position (snd (snd x)) = q))
   \<and> finite (explored st)
   \<and> expansions st = int (card (explored st))"

section \<open>Basic facts\<close>

lemma uniformcost_search_init:
  "uniformcost_search ident start goal e cap = ucs_loop ident goal e cap (ucs_init ident start)"
  by (simp add: uniformcost_search_def ucs_init_def)

lemma astar_search_init:
  "astar_search ident start goal e h cap =
     astar_loop ident goal e h cap (astar_init ident start goal h)"
  by (simp add: astar_search_def astar_init_def Let_def)

lemma ucs_loop_rule:
  assumes "I st"
    and "\<And>s s'. I s \<Longrightarrow> ucs_body ident goal e cap s = Inl s' \<Longrightarrow> I s'"
    and "\<And>s r. I s \<Longrightarrow> ucs_body ident goal e cap s = Inr r \<Longrightarrow> P r"
  shows "P (ucs_loop ident goal e cap st)"
  using assms
proof (induction ident goal e cap st rule: ucs_loop.induct)
  case (1 ident goal e cap st)
  show ?case
  proof (cases "ucs_body ident goal e cap st")
    case (Inl s')
    from "1.prems"(1,2) Inl have "I s'" by blast
    with "1.IH" [OF Inl] "1.prems"(2,3) Inl show ?thesis
      by (simp add: ucs_loop.simps [of ident goal e cap st])
  next
    case (Inr r)
    with "1.prems"(1,3) show ?thesis
      by (simp add: ucs_loop.simps [of ident goal e cap st])
  qed
qed

lemma astar_loop_rule:
  assumes "I st"
    and "\<And>s s'. I s \<Longrightarrow> astar_body ident goal e h cap s = Inl s' \<Longrightarrow> I s'"
    and "\<And>s r. I s \<Longrightarrow> astar_body ident goal e h cap s = Inr r \<Longrightarrow> P r"
  shows "P (astar_loop ident goal e h cap st)"
  using assms
proof (induction ident goal e h cap st rule: astar_loop.induct)
  case (1 ident goal e h cap st)
  show ?case
  proof (cases "astar_body ident goal e h cap st")
    case (Inl s')
    from "1.prems"(1,2) Inl have "I s'" by blast
    with "1.IH" [OF Inl] "1.prems"(2,3) Inl show ?thesis
      by (simp add: astar_loop.simps [of ident goal e h cap st])
  next
    case (Inr r)
    with "1.prems"(1,3) show ?thesis
      by (simp add: astar_loop.simps [of ident goal e h cap st])
  qed
qed

section \<open>Case analysis of one loop pass\<close>

lemma least_entry_mem: "least_entry m xs \<in> set (m # xs)"
  by (induction xs arbitrary: m) auto

lemma heappop_set:
  assumes "heappop fr = Some (m, fr')"
  shows "m \<in> set fr" and "set fr' \<subseteq> set fr" and "set fr \<subseteq> insert m (set fr')"
proof -
  from assms obtain x xs where fr: "fr = x # xs" by (cases fr) auto
  with assms have m: "m = least_entry x xs" and fr': "fr' = remove1 m fr"
    by (auto simp: Let_def)
  show "m \<in> set fr" using m fr least_entry_mem [of x xs] by simp
  show "set fr' \<subseteq> set fr" unfolding fr' by (rule set_remove1_subset)
  show "set fr \<subseteq> insert m (set fr')"
  proof
    fix y assume "y \<in> set fr"
    then show "y \<in> insert m (set fr')"
      unfolding fr' by (cases "y = m") (auto simp: in_set_remove1)
  qed
qed

lemma heappop_None: "heappop fr = None \<longleftrightarrow> fr = []"
  by (cases fr) (auto simp: Let_def)

lemma ucs_body_InlE:
  assumes "ucs_body ident goal e cap st = Inl st'"
  obtains (stale) cost i nd fr c where
      "heappop (frontier st) = Some ((cost, i, nd), fr)"
      "position nd \<noteq> goal" "explored st (position nd) = Some c" "c \<le> g nd"
      "st' = st\<lparr>frontier := fr\<rparr>"
  | (expand) cost i nd fr fr' k where
      "heappop (frontier st) = Some ((cost, i, nd), fr)"
      "position nd \<noteq> goal"
      "\<And>c. explored st (position nd) = Some c \<Longrightarrow> g nd < c"
      "expansions st + 1 \<le> cap"
      "ucs_expand e ((explored st)(position nd \<mapsto> g nd)) ident nd
         [''N'', ''E'', ''S'', ''W''] (fr, created st) = (fr', k)"
      "st' = \<lparr>frontier = fr', explored = (explored st)(position nd \<mapsto> g nd),
              peak = max (peak st) (length fr'), expansions = expansions st + 1,
              created = k\<rparr>"
  using assms unfolding ucs_body_def Let_def
  by (auto split: option.splits if_splits prod.splits)

lemma ucs_body_InrE:
  assumes "ucs_body ident goal e cap st = Inr r"
  obtains (empty) "frontier st = []"
      "r = (None, \<lparr>nodes_expanded = expansions st, path_length = None,
                   frontier_peak = peak st\<rparr>)"
  | (found) cost i nd fr where
      "heappop (frontier st) = Some ((cost, i, nd), fr)" "position nd = goal"
      "r = (Some (path nd), \<lparr>nodes_expanded = expansions st,
              path_length = Some (length (path nd)), frontier_peak = peak st\<rparr>)"
  | (capped) cost i nd fr where
      "heappop (frontier st) = Some ((cost, i, nd), fr)" "position nd \<noteq> goal"
      "\<And>c. explored st (position nd) = Some c \<Longrightarrow> g nd < c"
      "expansions st + 1 > cap"
      "r = (None, \<lparr>nodes_expanded = expansions st + 1, path_length = None,
                   frontier_peak = peak st\<rparr>)"
  using assms unfolding ucs_body_def Let_def
  by (auto split: option.splits if_splits prod.splits simp: heappop_None)

lemma astar_body_InlE:
  assumes "astar_body ident goal e h cap st = Inl st'"
  obtains (stale) f i nd fr where
      "heappop (frontier st) = Some ((f, i, nd), fr)"
      "a_position nd \<noteq> goal" "a_position nd \<in> explored st"
      "st' = st\<lparr>frontier := fr\<rparr>"
  | (expand) f i nd fr fr' k where
      "heappop (frontier st) = Some ((f, i, nd), fr)"
      "a_position nd \<noteq> goal" "a_position nd \<notin> explored st"
      "expansions st + 1 \<le> cap"
      "astar_expand e (insert (a_position nd) (explored st)) ident h goal nd
         [''N'', ''E'', ''S'', ''W''] (fr, created st) = (fr', k)"
      "st' = \<lparr>frontier = fr', explored = insert (a_position nd) (explored st),
              peak = max (peak st) (length fr'), expansions = expansions st + 1,
              created = k\<rparr>"
  using assms unfolding astar_body_def Let_def
  by (auto split: option.splits if_splits prod.splits)

lemma astar_body_InrE:
  assumes "astar_body ident goal e h cap st = Inr r"
  obtains (empty) "frontier st = []"
      "r = (None, \<lparr>nodes_expanded = expansions st, path_length = None,
                   frontier_peak = peak st\<rparr>)"
  | (found) f i nd fr where
      "heappop (frontier st) = Some ((f, i, nd), fr)" "a_position nd = goal"
      "r = (Some (a_path nd), \<lparr>nodes_expanded = expansions st,
              path_length = Some (length (a_path nd)), frontier_peak = peak st\<rparr>)"
  | (capped) f i nd fr where
      "heappop (frontier st) = Some ((f, i, nd), fr)" "a_position nd \<noteq> goal"
      "a_position nd \<notin> explored st"
      "expansions st + 1 > cap"
      "r = (None, \<lparr>nodes_expanded = expansions st + 1, path_length = None,
                   frontier_peak = peak st\<rparr>)"
  using assms unfolding astar_body_def Let_def
  by (auto split: option.splits if_splits prod.splits simp: heappop_None)

section \<open>Start equal to goal\<close>

lemma ucs_start_is_goal:
  "uniformcost_search ident start start e cap =
     (Some [start], \<lparr>nodes_expanded = 0, path_length = Some 1, frontier_peak = 1\<rparr>)"
  by (simp add: uniformcost_search_def ucs_loop.simps ucs_body_def heappush_def)

lemma astar_start_is_goal:
  "astar_search ident start start e h cap =
     (Some [start], \<lparr>nodes_expanded = 0, path_length = Some 1, frontier_peak = 1\<rparr>)"
  by (simp add: astar_search_def astar_loop.simps astar_body_def heappush_def)

text \<open>
  C8. When start and goal are the same passable position, both searches return the
  one-element path \<open>[start]\<close>, and the statistics report no expansion at all: the start
  node is popped and returned before anything is recorded or expanded.
\<close>

theorem start_equals_goal:
  assumes "\<not> is_wall e (fst start) (snd start)"
  shows "uniformcost_search ident start start e cap =
           (Some [start], \<lparr>nodes_expanded = 0, path_length = Some 1, frontier_peak = 1\<rparr>)
       \<and> astar_search ident start start e h cap =
           (Some [start], \<lparr>nodes_expanded = 0, path_length = Some 1, frontier_peak = 1\<rparr>)"
  by (simp add: ucs_start_is_goal astar_start_is_goal)

theorem start_equals_goal_witness:
  "\<not> is_wall (grid_env 2 2 []) (fst (0, 0)) (snd (0, 0))
   \<and> uniformcost_search (\<lambda>k. k) (0, 0) (0, 0) (grid_env 2 2 []) 10 =
       (Some [(0, 0)], \<lparr>nodes_expanded = 0, path_length = Some 1, frontier_peak = 1\<rparr>)
   \<and> astar_search (\<lambda>k. k) (0, 0) (0, 0) (grid_env 2 2 []) manhattan_distance 10 =
       (Some [(0, 0)], \<lparr>nodes_expanded = 0, path_length = Some 1, frontier_peak = 1\<rparr>)"
proof -
  have w: "\<not> is_wall (grid_env 2 2 []) (fst (0, 0)) (snd (0, 0))"
    by (simp add: grid_env_def)
  from w start_equals_goal [OF w, of "\<lambda>k. k" 10 manhattan_distance]
  show ?thesis by simp
qed

text \<open>
  C10. The same holds when the position is impassable: the goal test on the popped node
  comes before the look-up in \<open>explored\<close> and before any call of \<open>is_wall\<close>.
\<close>

theorem start_equals_goal_on_wall:
  assumes "is_wall e (fst start) (snd start)"
  shows "uniformcost_search ident start start e cap =
           (Some [start], \<lparr>nodes_expanded = 0, path_length = Some 1, frontier_peak = 1\<rparr>)
       \<and> astar_search ident start start e h cap =
           (Some [start], \<lparr>nodes_expanded = 0, path_length = Some 1, frontier_peak = 1\<rparr>)"
  by (simp add: ucs_start_is_goal astar_start_is_goal)

theorem start_equals_goal_on_wall_witness:
  "is_wall (grid_env 2 2 [(1, 1)]) (fst (1, 1)) (snd (1, 1))
   \<and> uniformcost_search (\<lambda>k. k) (1, 1) (1, 1) (grid_env 2 2 [(1, 1)]) 10 =
       (Some [(1, 1)], \<lparr>nodes_expanded = 0, path_length = Some 1, frontier_peak = 1\<rparr>)
   \<and> astar_search (\<lambda>k. k) (1, 1) (1, 1) (grid_env 2 2 [(1, 1)]) manhattan_distance 10 =
       (Some [(1, 1)], \<lparr>nodes_expanded = 0, path_length = Some 1, frontier_peak = 1\<rparr>)"
proof -
  have w: "is_wall (grid_env 2 2 [(1, 1)]) (fst (1, 1)) (snd (1, 1))"
    by (simp add: grid_env_def)
  from w start_equals_goal_on_wall [OF w, of "\<lambda>k. k" 10 manhattan_distance]
  show ?thesis by simp
qed

section \<open>The expansion cap\<close>

lemma ucs_cap_bound:
  assumes "0 \<le> cap" and r: "r = uniformcost_search ident start goal e cap"
  shows "nodes_expanded (snd r) \<le> cap + 1
       \<and> (cap < nodes_expanded (snd r) \<longrightarrow>
            fst r = None \<and> path_length (snd r) = None \<and> nodes_expanded (snd r) = cap + 1)"
  unfolding r uniformcost_search_init
proof (rule ucs_loop_rule [where I = "\<lambda>s. expansions s \<le> cap"], goal_cases)
  case 1
  from assms(1) show ?case by (simp add: ucs_init_def)
next
  case (2 s s')
  from 2(2) 2(1) show ?case by (cases rule: ucs_body_InlE) auto
next
  case (3 s r)
  from 3(2) 3(1) show ?case by (cases rule: ucs_body_InrE) auto
qed

lemma astar_cap_bound:
  assumes "0 \<le> cap" and r: "r = astar_search ident start goal e h cap"
  shows "nodes_expanded (snd r) \<le> cap + 1
       \<and> (cap < nodes_expanded (snd r) \<longrightarrow>
            fst r = None \<and> path_length (snd r) = None \<and> nodes_expanded (snd r) = cap + 1)"
  unfolding r astar_search_init
proof (rule astar_loop_rule [where I = "\<lambda>s. expansions s \<le> cap"], goal_cases)
  case 1
  from assms(1) show ?case by (simp add: astar_init_def)
next
  case (2 s s')
  from 2(2) 2(1) show ?case by (cases rule: astar_body_InlE) auto
next
  case (3 s r)
  from 3(2) 3(1) show ?case by (cases rule: astar_body_InrE) auto
qed

text \<open>
  C5, as the code has it. The counter is incremented before it is compared with the cap,
  and the loop is left when the counter is greater than the cap. For a cap that is not
  negative, the reported \<open>nodes_expanded\<close> is therefore at most the cap plus one, and
  it is greater than the cap only when the loop was left that way: then the result is
  "no path" and \<open>nodes_expanded\<close> is exactly the cap plus one.
\<close>

theorem expansion_cap_bound:
  assumes "0 \<le> cap"
  shows "(let r = uniformcost_search ident start goal e cap in
            nodes_expanded (snd r) \<le> cap + 1
          \<and> (cap < nodes_expanded (snd r) \<longrightarrow>
               fst r = None \<and> path_length (snd r) = None \<and> nodes_expanded (snd r) = cap + 1))
       \<and> (let r = astar_search ident start goal e h cap in
            nodes_expanded (snd r) \<le> cap + 1
          \<and> (cap < nodes_expanded (snd r) \<longrightarrow>
               fst r = None \<and> path_length (snd r) = None \<and> nodes_expanded (snd r) = cap + 1))"
  using ucs_cap_bound [OF assms refl, of ident start goal e]
    astar_cap_bound [OF assms refl, of ident start goal e h]
  by (simp add: Let_def)

theorem expansion_cap_bound_witness:
  "uniformcost_search (\<lambda>k. k) (0, 0) (1, 1) (grid_env 2 2 []) 2 =
     (None, \<lparr>nodes_expanded = 3, path_length = None, frontier_peak = 2\<rparr>)
   \<and> nodes_expanded (snd (astar_search (\<lambda>k. k) (0, 0) (1, 1) (grid_env 2 2 [])
        manhattan_distance 2)) \<le> 3"
proof -
  have c: "(0::int) \<le> 2" by simp
  have u: "uniformcost_search (\<lambda>k. k) (0, 0) (1, 1) (grid_env 2 2 []) 2 =
     (None, \<lparr>nodes_expanded = 3, path_length = None, frontier_peak = 2\<rparr>)"
    by code_simp
  from expansion_cap_bound [OF c, of "\<lambda>k. k" "(0, 0)" "(1, 1)" "grid_env 2 2 []"
      manhattan_distance] u
  show ?thesis by (simp add: Let_def)
qed

text \<open>
  The claim as stated fails: with cap \<open>0\<close> on the open two-by-two grid both searches
  report one expansion.
\<close>

theorem expansion_cap_exceeded:
  "\<not> nodes_expanded (snd (uniformcost_search (\<lambda>k. k) (0, 0) (1, 1) (grid_env 2 2 []) 0)) \<le> 0
   \<and> \<not> nodes_expanded (snd (astar_search (\<lambda>k. k) (0, 0) (1, 1) (grid_env 2 2 [])
        manhattan_distance 0)) \<le> 0"
  by code_simp
section \<open>Termination\<close>

lemma ucs_expand_length:
  "ucs_expand e ex ident nd acts (fr, k) = (fr', k') \<Longrightarrow>
     length fr' \<le> length fr + length acts \<and> k' \<le> k + length acts \<and> k \<le> k'"
proof (induction acts arbitrary: fr k)
  case Nil
  then show ?case by (simp add: ucs_expand.simps)
next
  case (Cons a acts)
  from Cons.prems show ?case
    by (auto simp: ucs_expand.simps Let_def heappush_def
        split: prod.splits if_splits dest!: Cons.IH)
qed

lemma astar_expand_length:
  "astar_expand e ex ident h goal nd acts (fr, k) = (fr', k') \<Longrightarrow>
     length fr' \<le> length fr + length acts \<and> k' \<le> k + length acts \<and> k \<le> k'"
proof (induction acts arbitrary: fr k)
  case Nil
  then show ?case by (simp add: astar_expand.simps)
next
  case (Cons a acts)
  from Cons.prems show ?case
    by (auto simp: astar_expand.simps Let_def heappush_def
        split: prod.splits if_splits dest!: Cons.IH)
qed








section \<open>Walks\<close>

lemma walk_nonempty: "walk e ps \<Longrightarrow> ps \<noteq> []"
  by (cases ps) auto

lemma walk_snoc:
  "walk e (ps @ [q]) \<longleftrightarrow> ps = [] \<or> (walk e ps \<and> is_move e (last ps) q)"
proof (induction ps rule: walk.induct)
  case (3 e p r ps)
  then show ?case by auto
qed auto

lemma walk_passable:
  "walk e ps \<Longrightarrow> p \<in> set (tl ps) \<Longrightarrow> \<not> is_wall e (fst p) (snd p)"
proof (induction ps rule: walk.induct)
  case (3 e a b ps)
  then show ?case by (auto simp: is_move_def)
qed auto

lemma route_single: "route e s s [s]"
  by (simp add: route_def)

lemma route_snoc:
  "route e s p ps \<Longrightarrow> is_move e p q \<Longrightarrow> route e s q (ps @ [q])"
  by (auto simp: route_def walk_snoc dest: walk_nonempty)

lemma route_passable:
  assumes "route e s t ps" and "\<not> is_wall e (fst s) (snd s)" and "p \<in> set ps"
  shows "\<not> is_wall e (fst p) (snd p)"
proof -
  from assms(1) have ne: "ps \<noteq> []" and w: "walk e ps" and h: "hd ps = s"
    by (auto simp: route_def dest: walk_nonempty)
  from ne assms(3) have "p = hd ps \<or> p \<in> set (tl ps)"
    by (cases ps) auto
  with h assms(2) walk_passable [OF w] show ?thesis by auto
qed

section \<open>The expansion loops\<close>

lemma ucs_expand_sub:
  "ucs_expand e ex ident nd acts (fr, k) = (fr', k') \<Longrightarrow> set fr \<subseteq> set fr'"
proof (induction acts arbitrary: fr k)
  case Nil
  then show ?case by (simp add: ucs_expand.simps)
next
  case (Cons a acts)
  from Cons.prems show ?case
    by (auto simp: ucs_expand.simps Let_def heappush_def
        split: prod.splits if_splits dest!: Cons.IH)
qed

lemma ucs_expand_new:
  "ucs_expand e ex ident nd acts (fr, k) = (fr', k') \<Longrightarrow> x \<in> set fr' \<Longrightarrow>
     x \<in> set fr \<or>
     (\<exists>act \<in> set acts. \<exists>i. \<not> is_wall e (fst (move_to e (position nd) act))
           (snd (move_to e (position nd) act))
        \<and> x = (g nd + 1, i, Node (move_to e (position nd) act) (Some nd) (Some act) (g nd + 1)))"
proof (induction acts arbitrary: fr k)
  case Nil
  then show ?case by (simp add: ucs_expand.simps)
next
  case (Cons a acts)
  from Cons.prems show ?case
    by (auto simp: ucs_expand.simps Let_def heappush_def move_to_def
        split: prod.splits if_splits dest!: Cons.IH)
qed

lemma ucs_expand_all:
  "ucs_expand e ex ident nd acts (fr, k) = (fr', k') \<Longrightarrow> act \<in> set acts \<Longrightarrow>
   \<not> is_wall e (fst (move_to e (position nd) act)) (snd (move_to e (position nd) act)) \<Longrightarrow>
   (\<And>c. ex (move_to e (position nd) act) = Some c \<Longrightarrow> g nd + 1 < c) \<Longrightarrow>
   \<exists>i. (g nd + 1, i, Node (move_to e (position nd) act) (Some nd) (Some act) (g nd + 1))
        \<in> set fr'"
proof (induction acts arbitrary: fr k)
  case Nil
  then show ?case by simp
next
  case (Cons a acts)
  obtain fr1 k1 where step: "ucs_expand e ex ident nd [a] (fr, k) = (fr1, k1)"
    by (cases "ucs_expand e ex ident nd [a] (fr, k)") auto
  have rest: "ucs_expand e ex ident nd acts (fr1, k1) = (fr', k')"
    using Cons.prems(1) step
    by (auto simp: ucs_expand.simps Let_def split: prod.splits if_splits)
  show ?case
  proof (cases "act = a")
    case True
    have "\<exists>i. (g nd + 1, i, Node (move_to e (position nd) act) (Some nd) (Some act) (g nd + 1))
        \<in> set fr1"
      using step Cons.prems(3,4) True
      by (auto simp: ucs_expand.simps Let_def heappush_def move_to_def
          split: prod.splits if_splits option.splits)
    with ucs_expand_sub [OF rest] show ?thesis by blast
  next
    case False
    with Cons.prems(2) have "act \<in> set acts" by simp
    from Cons.IH [OF rest this Cons.prems(3,4)] show ?thesis .
  qed
qed

lemma astar_expand_sub:
  "astar_expand e ex ident h goal nd acts (fr, k) = (fr', k') \<Longrightarrow> set fr \<subseteq> set fr'"
proof (induction acts arbitrary: fr k)
  case Nil
  then show ?case by (simp add: astar_expand.simps)
next
  case (Cons a acts)
  from Cons.prems show ?case
    by (auto simp: astar_expand.simps Let_def heappush_def
        split: prod.splits if_splits dest!: Cons.IH)
qed

lemma astar_expand_new:
  "astar_expand e ex ident h goal nd acts (fr, k) = (fr', k') \<Longrightarrow> x \<in> set fr' \<Longrightarrow>
     x \<in> set fr \<or>
     (\<exists>act \<in> set acts. \<exists>i. \<not> is_wall e (fst (move_to e (a_position nd) act))
           (snd (move_to e (a_position nd) act))
        \<and> x = (a_g nd + 1 + h (move_to e (a_position nd) act) goal, i,
               ANode (move_to e (a_position nd) act) (Some nd) (Some act) (a_g nd + 1)
                 (h (move_to e (a_position nd) act) goal)))"
proof (induction acts arbitrary: fr k)
  case Nil
  then show ?case by (simp add: astar_expand.simps)
next
  case (Cons a acts)
  from Cons.prems show ?case
    by (auto simp: astar_expand.simps Let_def heappush_def move_to_def a_f_def
        split: prod.splits if_splits dest!: Cons.IH)
qed

lemma astar_expand_all:
  "astar_expand e ex ident h goal nd acts (fr, k) = (fr', k') \<Longrightarrow> act \<in> set acts \<Longrightarrow>
   \<not> is_wall e (fst (move_to e (a_position nd) act)) (snd (move_to e (a_position nd) act)) \<Longrightarrow>
   move_to e (a_position nd) act \<notin> ex \<Longrightarrow>
   \<exists>i. (a_g nd + 1 + h (move_to e (a_position nd) act) goal, i,
          ANode (move_to e (a_position nd) act) (Some nd) (Some act) (a_g nd + 1)
            (h (move_to e (a_position nd) act) goal)) \<in> set fr'"
proof (induction acts arbitrary: fr k)
  case Nil
  then show ?case by simp
next
  case (Cons a acts)
  obtain fr1 k1 where step: "astar_expand e ex ident h goal nd [a] (fr, k) = (fr1, k1)"
    by (cases "astar_expand e ex ident h goal nd [a] (fr, k)") auto
  have rest: "astar_expand e ex ident h goal nd acts (fr1, k1) = (fr', k')"
    using Cons.prems(1) step
    by (auto simp: astar_expand.simps Let_def split: prod.splits if_splits)
  show ?case
  proof (cases "act = a")
    case True
    have "\<exists>i. (a_g nd + 1 + h (move_to e (a_position nd) act) goal, i,
          ANode (move_to e (a_position nd) act) (Some nd) (Some act) (a_g nd + 1)
            (h (move_to e (a_position nd) act) goal)) \<in> set fr1"
      using step Cons.prems(3,4) True
      by (auto simp: astar_expand.simps Let_def heappush_def move_to_def a_f_def
          split: prod.splits if_splits)
    with astar_expand_sub [OF rest] show ?thesis by blast
  next
    case False
    with Cons.prems(2) have "act \<in> set acts" by simp
    from Cons.IH [OF rest this Cons.prems(3,4)] show ?thesis .
  qed
qed

section \<open>Every frontier node carries a route from the start\<close>

lemma path_child: "path (Node q (Some nd) a c) = path nd @ [q]"
  by (cases nd) simp

lemma a_path_child: "a_path (ANode q (Some nd) a c d) = a_path nd @ [q]"
  by (cases nd) simp

lemma is_move_move_to:
  "act \<in> set [''N'', ''E'', ''S'', ''W''] \<Longrightarrow>
   \<not> is_wall e (fst (move_to e p act)) (snd (move_to e p act)) \<Longrightarrow>
   is_move e p (move_to e p act)"
  unfolding is_move_def by blast

lemma ucs_nodes_ok_init: "ucs_nodes_ok e start (frontier (ucs_init ident start))"
  by (simp add: ucs_nodes_ok_def ucs_init_def heappush_def route_single)

lemma ucs_nodes_ok_step:
  assumes "ucs_nodes_ok e start (frontier st)"
    and "ucs_body ident goal e cap st = Inl st'"
  shows "ucs_nodes_ok e start (frontier st')"
  using assms(2)
proof (cases rule: ucs_body_InlE)
  case (stale cost i nd fr c)
  from heappop_set(2) [OF stale(1)] assms(1) stale(5) show ?thesis
    by (auto simp: ucs_nodes_ok_def)
next
  case (expand cost i nd fr fr' k)
  from heappop_set(1) [OF expand(1)] assms(1)
  have nd: "route e start (position nd) (path nd)" "int (length (path nd)) = g nd + 1"
    by (auto simp: ucs_nodes_ok_def)
  have "fst x = g (snd (snd x))
       \<and> route e start (position (snd (snd x))) (path (snd (snd x)))
       \<and> int (length (path (snd (snd x)))) = g (snd (snd x)) + 1" if "x \<in> set fr'" for x
  proof -
    from ucs_expand_new [OF expand(5) that]
    consider "x \<in> set fr"
      | act i where "act \<in> set [''N'', ''E'', ''S'', ''W'']"
          "\<not> is_wall e (fst (move_to e (position nd) act)) (snd (move_to e (position nd) act))"
          "x = (g nd + 1, i, Node (move_to e (position nd) act) (Some nd) (Some act) (g nd + 1))"
      by blast
    then show ?thesis
    proof cases
      case 1
      with heappop_set(2) [OF expand(1)] assms(1) show ?thesis
        by (auto simp: ucs_nodes_ok_def)
    next
      case 2
      from is_move_move_to [OF 2(1,2)] nd(1)
      have "route e start (move_to e (position nd) act) (path nd @ [move_to e (position nd) act])"
        by (rule route_snoc [rotated])
      with 2(3) nd(2) show ?thesis by (simp add: path_child)
    qed
  qed
  with expand(6) show ?thesis by (simp add: ucs_nodes_ok_def)
qed

lemma astar_nodes_ok_init:
  "astar_nodes_ok e start goal h (frontier (astar_init ident start goal h))"
  by (simp add: astar_nodes_ok_def astar_init_def heappush_def route_single a_f_def)

lemma astar_nodes_ok_step:
  assumes "astar_nodes_ok e start goal h (frontier st)"
    and "astar_body ident goal e h cap st = Inl st'"
  shows "astar_nodes_ok e start goal h (frontier st')"
  using assms(2)
proof (cases rule: astar_body_InlE)
  case (stale f i nd fr)
  from heappop_set(2) [OF stale(1)] assms(1) stale(4) show ?thesis
    by (auto simp: astar_nodes_ok_def)
next
  case (expand f i nd fr fr' k)
  from heappop_set(1) [OF expand(1)] assms(1)
  have nd: "route e start (a_position nd) (a_path nd)" "int (length (a_path nd)) = a_g nd + 1"
    by (auto simp: astar_nodes_ok_def)
  have "fst x = a_g (snd (snd x)) + h (a_position (snd (snd x))) goal
       \<and> route e start (a_position (snd (snd x))) (a_path (snd (snd x)))
       \<and> int (length (a_path (snd (snd x)))) = a_g (snd (snd x)) + 1" if "x \<in> set fr'" for x
  proof -
    from astar_expand_new [OF expand(5) that]
    consider "x \<in> set fr"
      | act i where "act \<in> set [''N'', ''E'', ''S'', ''W'']"
          "\<not> is_wall e (fst (move_to e (a_position nd) act))
               (snd (move_to e (a_position nd) act))"
          "x = (a_g nd + 1 + h (move_to e (a_position nd) act) goal, i,
               ANode (move_to e (a_position nd) act) (Some nd) (Some act) (a_g nd + 1)
                 (h (move_to e (a_position nd) act) goal))"
      by blast
    then show ?thesis
    proof cases
      case 1
      with heappop_set(2) [OF expand(1)] assms(1) show ?thesis
        by (auto simp: astar_nodes_ok_def)
    next
      case 2
      from is_move_move_to [OF 2(1,2)] nd(1)
      have "route e start (move_to e (a_position nd) act)
              (a_path nd @ [move_to e (a_position nd) act])"
        by (rule route_snoc [rotated])
      with 2(3) nd(2) show ?thesis by (simp add: a_path_child)
    qed
  qed
  with expand(6) show ?thesis by (simp add: astar_nodes_ok_def)
qed

lemma ucs_found_route:
  assumes "fst (uniformcost_search ident start goal e cap) = Some ps"
  shows "route e start goal ps"
proof -
  have "\<forall>ps. fst (uniformcost_search ident start goal e cap) = Some ps \<longrightarrow> route e start goal ps"
    unfolding uniformcost_search_init
  proof (rule ucs_loop_rule [where I = "\<lambda>s. ucs_nodes_ok e start (frontier s)"], goal_cases)
    case 1
    show ?case by (rule ucs_nodes_ok_init)
  next
    case (2 s s')
    then show ?case by (rule ucs_nodes_ok_step)
  next
    case (3 s r)
    from 3(2) show ?case
    proof (cases rule: ucs_body_InrE)
      case (found cost i nd fr)
      from heappop_set(1) [OF found(1)] 3(1) found(2,3) show ?thesis
        by (auto simp: ucs_nodes_ok_def)
    qed auto
  qed
  with assms show ?thesis by blast
qed

lemma astar_found_route:
  assumes "fst (astar_search ident start goal e h cap) = Some ps"
  shows "route e start goal ps"
proof -
  have "\<forall>ps. fst (astar_search ident start goal e h cap) = Some ps \<longrightarrow> route e start goal ps"
    unfolding astar_search_init
  proof (rule astar_loop_rule [where I = "\<lambda>s. astar_nodes_ok e start goal h (frontier s)"],
      goal_cases)
    case 1
    show ?case by (rule astar_nodes_ok_init)
  next
    case (2 s s')
    then show ?case by (rule astar_nodes_ok_step)
  next
    case (3 s r)
    from 3(2) show ?case
    proof (cases rule: astar_body_InrE)
      case (found f i nd fr)
      from heappop_set(1) [OF found(1)] 3(1) found(2,3) show ?thesis
        by (auto simp: astar_nodes_ok_def)
    qed auto
  qed
  with assms show ?thesis by blast
qed

text \<open>
  C3. A path returned by either search, from a passable start, is a route from start to
  goal: its first element is \<open>start\<close>, its last is \<open>goal\<close>, each position is followed by
  the cell that one of the four entries of \<open>MOVE_DELTAS\<close> leads to, and no position of
  it is a wall.
\<close>

theorem returned_path_valid:
  assumes "\<not> is_wall e (fst start) (snd start)"
    and "fst (uniformcost_search ident start goal e cap) = Some ps
       \<or> fst (astar_search ident start goal e h cap) = Some ps"
  shows "hd ps = start \<and> last ps = goal \<and> walk e ps
       \<and> (\<forall>i. Suc i < length ps \<longrightarrow>
            (\<exists>act \<in> set [''N'', ''E'', ''S'', ''W'']. ps ! Suc i = move_to e (ps ! i) act))
       \<and> (\<forall>p \<in> set ps. \<not> is_wall e (fst p) (snd p))"
proof -
  from assms(2) have r: "route e start goal ps"
    using ucs_found_route astar_found_route by blast
  have adj: "\<exists>act \<in> set [''N'', ''E'', ''S'', ''W'']. qs ! Suc i = move_to e (qs ! i) act"
    if "walk e qs" "Suc i < length qs" for qs i
    using that
  proof (induction qs arbitrary: i rule: walk.induct)
    case (3 e p q ps)
    then show ?case by (cases i) (auto simp: is_move_def)
  qed auto
  from r adj [of ps] route_passable [OF r assms(1)] show ?thesis
    by (auto simp: route_def)
qed

theorem returned_path_valid_witness:
  "\<not> is_wall (grid_env 2 2 []) (fst (0, 0)) (snd (0, 0))
   \<and> fst (uniformcost_search (\<lambda>k. k) (0, 0) (1, 1) (grid_env 2 2 []) 10) =
       Some [(0, 0), (0, 1), (1, 1)]
   \<and> hd [(0, 0), (0, 1), (1, 1)] = ((0, 0) :: Position)
   \<and> last [(0, 0), (0, 1), (1, 1)] = ((1, 1) :: Position)
   \<and> walk (grid_env 2 2 []) [(0, 0), (0, 1), (1, 1)]
   \<and> \<not> is_wall (grid_env 2 2 []) 0 1
   \<and> \<not> is_wall (grid_env 2 2 []) 1 1"
proof -
  have w: "\<not> is_wall (grid_env 2 2 []) (fst (0, 0)) (snd (0, 0))"
    by (simp add: grid_env_def)
  have u: "fst (uniformcost_search (\<lambda>k. k) (0, 0) (1, 1) (grid_env 2 2 []) 10) =
       Some [(0, 0), (0, 1), (1, 1)]"
    by code_simp
  from returned_path_valid [OF w disjI1 [OF u]] w u show ?thesis
    by simp
qed

section \<open>The least entry is popped\<close>

lemma entry_le_total: "entry_le a b \<or> entry_le b a"
  by (auto simp: entry_le_def)

lemma entry_le_trans: "entry_le a b \<Longrightarrow> entry_le b c \<Longrightarrow> entry_le a c"
  by (auto simp: entry_le_def)

lemma least_entry_le:
  "entry_le (least_entry m xs) m \<and> (\<forall>x \<in> set xs. entry_le (least_entry m xs) x)"
proof (induction xs arbitrary: m)
  case Nil
  show ?case by (simp add: entry_le_def)
next
  case (Cons a xs)
  let ?m' = "if entry_le m a then m else a"
  from Cons.IH [of ?m']
  have 1: "entry_le (least_entry ?m' xs) ?m'"
    and 2: "\<forall>x \<in> set xs. entry_le (least_entry ?m' xs) x" by blast+
  have "entry_le ?m' m" "entry_le ?m' a"
    using entry_le_total [of m a] by (auto simp: entry_le_def)
  with 1 have "entry_le (least_entry ?m' xs) m" "entry_le (least_entry ?m' xs) a"
    by (blast intro: entry_le_trans)+
  with 2 show ?case by simp
qed

lemma heappop_least:
  assumes "heappop fr = Some (m, fr')" and "x \<in> set fr"
  shows "entry_le m x"
proof -
  from assms(1) obtain y ys where fr: "fr = y # ys" and m: "m = least_entry y ys"
    by (cases fr) (auto simp: Let_def)
  with least_entry_le [of y ys] assms(2) show ?thesis by auto
qed

lemma heappop_least_fst:
  assumes "heappop fr = Some (m, fr')" and "x \<in> set fr"
  shows "fst m \<le> fst x"
  using heappop_least [OF assms] by (auto simp: entry_le_def)

lemma heappop_rest:
  assumes "heappop fr = Some (m, fr')" and "x \<in> set fr" and "x \<noteq> m"
  shows "x \<in> set fr'"
  using heappop_set(3) [OF assms(1)] assms(2,3) by auto

section \<open>Shortest costs\<close>

lemma shortest_cost_unique:
  "shortest_cost e s t c \<Longrightarrow> shortest_cost e s t d \<Longrightarrow> c = d"
  unfolding shortest_cost_def by (metis add_right_cancel order_antisym)

lemma shortest_cost_le:
  "shortest_cost e s t c \<Longrightarrow> route e s t ps \<Longrightarrow> c + 1 \<le> int (length ps)"
  unfolding shortest_cost_def by blast

lemma shortest_cost_step:
  assumes "shortest_cost e s p c" "shortest_cost e s q d" "is_move e p q"
  shows "d \<le> c + 1"
proof -
  from assms(1) obtain ps where "route e s p ps" "int (length ps) = c + 1"
    unfolding shortest_cost_def by blast
  with route_snoc [OF this(1) assms(3)] shortest_cost_le [OF assms(2)] show ?thesis
    by fastforce
qed

section \<open>The invariant of uniform cost search\<close>

lemma ucs_inv_init: "ucs_inv e start goal (ucs_init ident start)"
  unfolding ucs_inv_def
  using ucs_nodes_ok_init [of e start ident]
  by (simp add: ucs_init_def heappush_def)

lemma ucs_crossing:
  assumes inv: "ucs_inv e start goal st"
  shows "walk e ps \<Longrightarrow> hd ps = start \<Longrightarrow>
     last ps \<in> dom (explored st)
     \<or> (\<exists>x \<in> set (frontier st). g (snd (snd x)) + 1 \<le> int (length ps))"
proof (induction ps rule: rev_induct)
  case Nil
  then show ?case by simp
next
  case (snoc q ps)
  show ?case
  proof (cases "ps = []")
    case True
    with snoc.prems have "q = start" by simp
    with inv show ?thesis unfolding ucs_inv_def by fastforce
  next
    case False
    with snoc.prems have w: "walk e ps" and mv: "is_move e (last ps) q" and h: "hd ps = start"
      by (auto simp: walk_snoc)
    from snoc.IH [OF w h] show ?thesis
    proof
      assume "last ps \<in> dom (explored st)"
      then obtain c where c: "explored st (last ps) = Some c" by blast
      with inv have "shortest_cost e start (last ps) c" unfolding ucs_inv_def by blast
      from shortest_cost_le [OF this, of ps] w h
      have cl: "c + 1 \<le> int (length ps)" by (simp add: route_def)
      from inv c mv have "q \<in> dom (explored st)
         \<or> (\<exists>x \<in> set (frontier st). position (snd (snd x)) = q \<and> g (snd (snd x)) \<le> c + 1)"
        unfolding ucs_inv_def by blast
      then show ?thesis
      proof
        assume "q \<in> dom (explored st)"
        then show ?thesis by simp
      next
        assume "\<exists>x \<in> set (frontier st). position (snd (snd x)) = q \<and> g (snd (snd x)) \<le> c + 1"
        then obtain x where "x \<in> set (frontier st)" "g (snd (snd x)) \<le> c + 1" by blast
        with cl have "x \<in> set (frontier st) \<and> g (snd (snd x)) + 1 \<le> int (length (ps @ [q]))"
          by simp
        then show ?thesis by blast
      qed
    next
      assume "\<exists>x \<in> set (frontier st). g (snd (snd x)) + 1 \<le> int (length ps)"
      then obtain x where "x \<in> set (frontier st)" "g (snd (snd x)) + 1 \<le> int (length ps)"
        by blast
      then have "x \<in> set (frontier st) \<and> g (snd (snd x)) + 1 \<le> int (length (ps @ [q]))"
        by simp
      then show ?thesis by blast
    qed
  qed
qed

lemma ucs_popped:
  assumes inv: "ucs_inv e start goal st"
    and pop: "heappop (frontier st) = Some ((cost, i, nd), fr)"
  shows "route e start (position nd) (path nd)"
    and "int (length (path nd)) = g nd + 1"
    and "\<And>x. x \<in> set (frontier st) \<Longrightarrow> g nd \<le> g (snd (snd x))"
    and "\<And>c. explored st (position nd) = Some c \<Longrightarrow> c \<le> g nd"
proof -
  from inv have ok: "ucs_nodes_ok e start (frontier st)" unfolding ucs_inv_def by blast
  from heappop_set(1) [OF pop] ok
  have r: "route e start (position nd) (path nd)" and l: "int (length (path nd)) = g nd + 1"
    and "cost = g nd"
    by (auto simp: ucs_nodes_ok_def)
  show "route e start (position nd) (path nd)" by (rule r)
  show "int (length (path nd)) = g nd + 1" by (rule l)
  show "g nd \<le> g (snd (snd x))" if "x \<in> set (frontier st)" for x
    using heappop_least_fst [OF pop that] ok that \<open>cost = g nd\<close>
    by (auto simp: ucs_nodes_ok_def)
  show "c \<le> g nd" if "explored st (position nd) = Some c" for c
  proof -
    from inv that have "shortest_cost e start (position nd) c" unfolding ucs_inv_def by blast
    from shortest_cost_le [OF this r] l show ?thesis by simp
  qed
qed

lemma ucs_pop_optimal:
  assumes inv: "ucs_inv e start goal st"
    and pop: "heappop (frontier st) = Some ((cost, i, nd), fr)"
    and new: "position nd \<notin> dom (explored st)"
  shows "shortest_cost e start (position nd) (g nd)"
  unfolding shortest_cost_def
proof (intro conjI allI impI)
  from ucs_popped(1,2) [OF inv pop]
  show "\<exists>ps. route e start (position nd) ps \<and> int (length ps) = g nd + 1" by blast
next
  fix ps assume "route e start (position nd) ps"
  then have "walk e ps" "hd ps = start" "last ps = position nd" by (auto simp: route_def)
  from ucs_crossing [OF inv this(1,2)] this(3) new
  obtain x where "x \<in> set (frontier st)" "g (snd (snd x)) + 1 \<le> int (length ps)" by auto
  with ucs_popped(3) [OF inv pop this(1)] show "g nd + 1 \<le> int (length ps)" by simp
qed

lemma ucs_inv_stale:
  assumes inv: "ucs_inv e start goal st"
    and pop: "heappop (frontier st) = Some ((cost, i, nd), fr)"
    and old: "explored st (position nd) = Some c"
  shows "ucs_inv e start goal (st\<lparr>frontier := fr\<rparr>)"
proof -
  have sub: "set fr \<subseteq> set (frontier st)" by (rule heappop_set(2) [OF pop])
  have keep: "x \<in> set fr" if "x \<in> set (frontier st)" "position (snd (snd x)) \<notin> dom (explored st)"
    for x
  proof -
    from that(2) old have "x \<noteq> (cost, i, nd)" by auto
    from heappop_rest [OF pop that(1) this] show ?thesis .
  qed
  from inv have ok: "ucs_nodes_ok e start (frontier st)"
    and a: "\<forall>p c. explored st p = Some c \<longrightarrow> shortest_cost e start p c"
    and b: "start \<in> dom (explored st)
        \<or> (\<exists>x \<in> set (frontier st). position (snd (snd x)) = start \<and> g (snd (snd x)) = 0)"
    and c: "\<forall>p c q. explored st p = Some c \<longrightarrow> is_move e p q \<longrightarrow>
         q \<in> dom (explored st)
         \<or> (\<exists>x \<in> set (frontier st). position (snd (snd x)) = q \<and> g (snd (snd x)) \<le> c + 1)"
    and d: "goal \<notin> dom (explored st)"
    and o: "\<forall>p c. explored st p = Some c \<longrightarrow> (\<forall>x \<in> set (frontier st). c \<le> g (snd (snd x)))"
    and f: "finite (dom (explored st))" "expansions st = int (card (dom (explored st)))"
    unfolding ucs_inv_def by blast+
  have ok': "ucs_nodes_ok e start fr"
    using ok sub by (auto simp: ucs_nodes_ok_def)
  have b': "start \<in> dom (explored st)
        \<or> (\<exists>x \<in> set fr. position (snd (snd x)) = start \<and> g (snd (snd x)) = 0)"
    using b keep by blast
  have c': "\<forall>p c q. explored st p = Some c \<longrightarrow> is_move e p q \<longrightarrow>
         q \<in> dom (explored st)
         \<or> (\<exists>x \<in> set fr. position (snd (snd x)) = q \<and> g (snd (snd x)) \<le> c + 1)"
  proof (intro allI impI)
    fix p c q assume "explored st p = Some c" "is_move e p q"
    with c have "q \<in> dom (explored st)
         \<or> (\<exists>x \<in> set (frontier st). position (snd (snd x)) = q \<and> g (snd (snd x)) \<le> c + 1)"
      by blast
    with keep show "q \<in> dom (explored st)
         \<or> (\<exists>x \<in> set fr. position (snd (snd x)) = q \<and> g (snd (snd x)) \<le> c + 1)"
      by blast
  qed
  have o': "\<forall>p c. explored st p = Some c \<longrightarrow> (\<forall>x \<in> set fr. c \<le> g (snd (snd x)))"
    using o sub by blast
  show ?thesis
    unfolding ucs_inv_def using ok' a b' c' d o' f by simp
qed

lemma ucs_inv_expand:
  assumes inv: "ucs_inv e start goal st"
    and pop: "heappop (frontier st) = Some ((cost, i, nd), fr)"
    and ng: "position nd \<noteq> goal"
    and new: "position nd \<notin> dom (explored st)"
    and ex: "ucs_expand e ((explored st)(position nd \<mapsto> g nd)) ident nd
         [''N'', ''E'', ''S'', ''W''] (fr, created st) = (fr', k)"
    and ok': "ucs_nodes_ok e start fr'"
  shows "ucs_inv e start goal
           \<lparr>frontier = fr', explored = (explored st)(position nd \<mapsto> g nd),
            peak = pk, expansions = expansions st + 1, created = k\<rparr>"
proof -
  let ?pos = "position nd"
  let ?ex = "(explored st)(?pos \<mapsto> g nd)"
  have opt: "shortest_cost e start ?pos (g nd)" by (rule ucs_pop_optimal [OF inv pop new])
  have sub: "set fr \<subseteq> set fr'" by (rule ucs_expand_sub [OF ex])
  have keep: "x \<in> set fr'" if "x \<in> set (frontier st)" "position (snd (snd x)) \<noteq> ?pos" for x
  proof -
    from that(2) have "x \<noteq> (cost, i, nd)" by auto
    from heappop_rest [OF pop that(1) this] sub show ?thesis by blast
  qed
  from inv have a: "\<forall>p c. explored st p = Some c \<longrightarrow> shortest_cost e start p c"
    and b: "start \<in> dom (explored st)
        \<or> (\<exists>x \<in> set (frontier st). position (snd (snd x)) = start \<and> g (snd (snd x)) = 0)"
    and c: "\<forall>p c q. explored st p = Some c \<longrightarrow> is_move e p q \<longrightarrow>
         q \<in> dom (explored st)
         \<or> (\<exists>x \<in> set (frontier st). position (snd (snd x)) = q \<and> g (snd (snd x)) \<le> c + 1)"
    and d: "goal \<notin> dom (explored st)"
    and o: "\<forall>p c. explored st p = Some c \<longrightarrow> (\<forall>x \<in> set (frontier st). c \<le> g (snd (snd x)))"
    and f: "finite (dom (explored st))" "expansions st = int (card (dom (explored st)))"
    unfolding ucs_inv_def by blast+
  have a': "\<forall>p c. ?ex p = Some c \<longrightarrow> shortest_cost e start p c"
    using a opt by auto
  have b': "start \<in> dom ?ex
        \<or> (\<exists>x \<in> set fr'. position (snd (snd x)) = start \<and> g (snd (snd x)) = 0)"
  proof (cases "start = ?pos")
    case True
    then show ?thesis by simp
  next
    case False
    with b keep show ?thesis by auto
  qed
  have c': "\<forall>p c q. ?ex p = Some c \<longrightarrow> is_move e p q \<longrightarrow>
         q \<in> dom ?ex
         \<or> (\<exists>x \<in> set fr'. position (snd (snd x)) = q \<and> g (snd (snd x)) \<le> c + 1)"
  proof (intro allI impI)
    fix p c q assume pc: "?ex p = Some c" and mv: "is_move e p q"
    show "q \<in> dom ?ex
         \<or> (\<exists>x \<in> set fr'. position (snd (snd x)) = q \<and> g (snd (snd x)) \<le> c + 1)"
    proof (cases "q \<in> dom ?ex")
      case True
      then show ?thesis by blast
    next
      case qnew: False
      show ?thesis
      proof (cases "p = ?pos")
        case True
        with pc have cg: "c = g nd" by simp
        from mv True obtain act where act: "act \<in> set [''N'', ''E'', ''S'', ''W'']"
          and q: "q = move_to e ?pos act" and nw: "\<not> is_wall e (fst q) (snd q)"
          unfolding is_move_def by blast
        from qnew q have "\<And>c. ?ex (move_to e ?pos act) = Some c \<Longrightarrow> g nd + 1 < c"
          by (metis domI)
        from ucs_expand_all [OF ex act nw [unfolded q] this]
        obtain j where "(g nd + 1, j, Node q (Some nd) (Some act) (g nd + 1)) \<in> set fr'"
          unfolding q by blast
        then have "\<exists>x \<in> set fr'. position (snd (snd x)) = q \<and> g (snd (snd x)) \<le> c + 1"
          using cg by force
        then show ?thesis by blast
      next
        case False
        with pc have "explored st p = Some c" by simp
        with c mv have "q \<in> dom (explored st)
         \<or> (\<exists>x \<in> set (frontier st). position (snd (snd x)) = q \<and> g (snd (snd x)) \<le> c + 1)"
          by blast
        moreover from qnew have "q \<notin> dom (explored st)" "q \<noteq> ?pos" by auto
        ultimately obtain x where "x \<in> set (frontier st)" "position (snd (snd x)) = q"
          "g (snd (snd x)) \<le> c + 1" by blast
        with keep [OF this(1)] \<open>q \<noteq> ?pos\<close> show ?thesis by blast
      qed
    qed
  qed
  have d': "goal \<notin> dom ?ex" using d ng by auto
  have o': "\<forall>p c. ?ex p = Some c \<longrightarrow> (\<forall>x \<in> set fr'. c \<le> g (snd (snd x)))"
  proof (intro allI impI ballI)
    fix p c x assume pc: "?ex p = Some c" and x: "x \<in> set fr'"
    have cg: "c \<le> g nd"
    proof (cases "p = ?pos")
      case True
      with pc show ?thesis by simp
    next
      case False
      with pc have "explored st p = Some c" by simp
      with o heappop_set(1) [OF pop] show ?thesis by fastforce
    qed
    from ucs_expand_new [OF ex x] have "x \<in> set fr \<or> g (snd (snd x)) = g nd + 1" by auto
    then show "c \<le> g (snd (snd x))"
    proof
      assume "x \<in> set fr"
      with heappop_set(2) [OF pop] have "x \<in> set (frontier st)" by blast
      from ucs_popped(3) [OF inv pop this] cg show ?thesis by simp
    next
      assume "g (snd (snd x)) = g nd + 1"
      with cg show ?thesis by simp
    qed
  qed
  have f': "finite (dom ?ex)" "expansions st + 1 = int (card (dom ?ex))"
    using f new by simp_all
  show ?thesis
    unfolding ucs_inv_def using ok' a' b' c' d' o' f' by simp
qed

lemma ucs_inv_step:
  assumes inv: "ucs_inv e start goal st"
    and body: "ucs_body ident goal e cap st = Inl st'"
  shows "ucs_inv e start goal st'"
  using body
proof (cases rule: ucs_body_InlE)
  case (stale cost i nd fr c)
  from ucs_inv_stale [OF inv stale(1,3)] stale(5) show ?thesis by simp
next
  case (expand cost i nd fr fr' k)
  from ucs_popped(4) [OF inv expand(1)] expand(3)
  have new: "position nd \<notin> dom (explored st)" by fastforce
  from inv have "ucs_nodes_ok e start (frontier st)" unfolding ucs_inv_def by blast
  from ucs_nodes_ok_step [OF this body] expand(6) have "ucs_nodes_ok e start fr'" by simp
  from ucs_inv_expand [OF inv expand(1,2) new expand(5) this] expand(6) show ?thesis by simp
qed

lemma ucs_step_order:
  assumes inv: "ucs_inv e start goal st"
    and body: "ucs_body ident goal e cap st = Inl st'"
  shows "explored st' = explored st
       \<or> (\<exists>q d. explored st q = None \<and> explored st' = (explored st)(q \<mapsto> d)
            \<and> shortest_cost e start q d
            \<and> (\<forall>p c. explored st p = Some c \<longrightarrow> c \<le> d))"
  using body
proof (cases rule: ucs_body_InlE)
  case (stale cost i nd fr c)
  then show ?thesis by simp
next
  case (expand cost i nd fr fr' k)
  from ucs_popped(4) [OF inv expand(1)] expand(3)
  have new: "position nd \<notin> dom (explored st)" by fastforce
  from inv have "\<forall>p c. explored st p = Some c \<longrightarrow> (\<forall>x \<in> set (frontier st). c \<le> g (snd (snd x)))"
    unfolding ucs_inv_def by blast
  with heappop_set(1) [OF expand(1)] have "\<forall>p c. explored st p = Some c \<longrightarrow> c \<le> g nd"
    by fastforce
  with new ucs_pop_optimal [OF inv expand(1) new] expand(6) show ?thesis
    by (intro disjI2 exI [of _ "position nd"] exI [of _ "g nd"]) auto
qed

lemma reaches_inv:
  assumes "reaches body s0 st" and "I s0"
    and "\<And>s s'. I s \<Longrightarrow> body s = Inl s' \<Longrightarrow> I s'"
  shows "I st"
  using assms(1,2)
proof (induction rule: reaches.induct)
  case (reaches_refl s)
  then show ?case .
next
  case (reaches_step s t u)
  from assms(3) [OF reaches_step.IH [OF reaches_step.prems] reaches_step.hyps(2)]
  show ?case .
qed

lemma ucs_explored_reachable:
  assumes "ucs_inv e start goal st"
  shows "dom (explored st) \<subseteq> reachable e start"
proof
  fix p assume "p \<in> dom (explored st)"
  then obtain c where "explored st p = Some c" by blast
  with assms have "shortest_cost e start p c" unfolding ucs_inv_def by blast
  then show "p \<in> reachable e start"
    unfolding shortest_cost_def reachable_def by blast
qed

lemma ucs_final:
  assumes inv: "ucs_inv e start goal st"
    and body: "ucs_body ident goal e cap st = Inr r"
  shows "(\<exists>ps C X. fst r = Some ps \<and> route e start goal ps \<and> shortest_cost e start goal C
            \<and> int (length ps) = C + 1 \<and> finite X \<and> nodes_expanded (snd r) = int (card X)
            \<and> (\<forall>p c. shortest_cost e start p c \<and> c < C \<longrightarrow> p \<in> X))
       \<or> (fst r = None \<and> path_length (snd r) = None \<and> goal \<notin> reachable e start
            \<and> finite (reachable e start)
            \<and> nodes_expanded (snd r) = int (card (reachable e start)))
       \<or> (fst r = None \<and> path_length (snd r) = None \<and> cap < nodes_expanded (snd r)
            \<and> (finite (reachable e start) \<longrightarrow>
                  nodes_expanded (snd r) \<le> int (card (reachable e start))))"
  using body
proof (cases rule: ucs_body_InrE)
  case empty
  have "reachable e start \<subseteq> dom (explored st)"
  proof
    fix p assume "p \<in> reachable e start"
    then obtain ps where "walk e ps" "hd ps = start" "last ps = p"
      unfolding reachable_def route_def by blast
    from ucs_crossing [OF inv this(1,2)] this(3) empty(1) show "p \<in> dom (explored st)"
      by simp
  qed
  with ucs_explored_reachable [OF inv] have eq: "reachable e start = dom (explored st)" by blast
  from inv have "goal \<notin> dom (explored st)" "finite (dom (explored st))"
    "expansions st = int (card (dom (explored st)))"
    unfolding ucs_inv_def by blast+
  with eq empty(2) show ?thesis by simp
next
  case (found cost i nd fr)
  from inv have ng: "goal \<notin> dom (explored st)" and fin: "finite (dom (explored st))"
    and n: "expansions st = int (card (dom (explored st)))"
    unfolding ucs_inv_def by blast+
  from ng found(2) have new: "position nd \<notin> dom (explored st)" by simp
  from ucs_pop_optimal [OF inv found(1) new] found(2)
  have opt: "shortest_cost e start goal (g nd)" by simp
  have all: "p \<in> dom (explored st)" if "shortest_cost e start p c" "c < g nd" for p c
  proof (rule ccontr)
    assume np: "p \<notin> dom (explored st)"
    from that(1) obtain ps where "route e start p ps" "int (length ps) = c + 1"
      unfolding shortest_cost_def by blast
    then have "walk e ps" "hd ps = start" "last ps = p" by (auto simp: route_def)
    from ucs_crossing [OF inv this(1,2)] this(3) np
    obtain x where x: "x \<in> set (frontier st)" "g (snd (snd x)) + 1 \<le> int (length ps)" by auto
    from ucs_popped(3) [OF inv found(1) x(1)] x(2) \<open>int (length ps) = c + 1\<close> that(2)
    show False by simp
  qed
  from ucs_popped(1,2) [OF inv found(1)] found(2)
  have "route e start goal (path nd)" "int (length (path nd)) = g nd + 1" by simp_all
  with opt fin n all found(3) have "\<exists>ps C X. fst r = Some ps \<and> route e start goal ps
            \<and> shortest_cost e start goal C
            \<and> int (length ps) = C + 1 \<and> finite X \<and> nodes_expanded (snd r) = int (card X)
            \<and> (\<forall>p c. shortest_cost e start p c \<and> c < C \<longrightarrow> p \<in> X)"
    by (intro exI [of _ "path nd"] exI [of _ "g nd"] exI [of _ "dom (explored st)"]) auto
  then show ?thesis by blast
next
  case (capped cost i nd fr)
  from ucs_popped(4) [OF inv capped(1)] capped(3)
  have new: "position nd \<notin> dom (explored st)" by fastforce
  from ucs_popped(1) [OF inv capped(1)] have "position nd \<in> reachable e start"
    unfolding reachable_def by blast
  with ucs_explored_reachable [OF inv]
  have sub: "insert (position nd) (dom (explored st)) \<subseteq> reachable e start" by blast
  from inv have n: "expansions st = int (card (dom (explored st)))"
    and fin: "finite (dom (explored st))"
    unfolding ucs_inv_def by blast+
  have "expansions st + 1 \<le> int (card (reachable e start))" if "finite (reachable e start)"
  proof -
    from card_mono [OF that sub] new fin n show ?thesis by simp
  qed
  with capped(4,5) show ?thesis by simp
qed

lemma ucs_result_cases:
  fixes ident start goal e cap
  defines "r \<equiv> uniformcost_search ident start goal e cap"
  shows "(\<exists>ps C X. fst r = Some ps \<and> route e start goal ps \<and> shortest_cost e start goal C
            \<and> int (length ps) = C + 1 \<and> finite X \<and> nodes_expanded (snd r) = int (card X)
            \<and> (\<forall>p c. shortest_cost e start p c \<and> c < C \<longrightarrow> p \<in> X))
       \<or> (fst r = None \<and> path_length (snd r) = None \<and> goal \<notin> reachable e start
            \<and> finite (reachable e start)
            \<and> nodes_expanded (snd r) = int (card (reachable e start)))
       \<or> (fst r = None \<and> path_length (snd r) = None \<and> cap < nodes_expanded (snd r)
            \<and> (finite (reachable e start) \<longrightarrow>
                  nodes_expanded (snd r) \<le> int (card (reachable e start))))"
  unfolding r_def uniformcost_search_init
proof (rule ucs_loop_rule [where I = "ucs_inv e start goal"], goal_cases)
  case 1
  show ?case by (rule ucs_inv_init)
next
  case (2 s s')
  then show ?case by (rule ucs_inv_step)
next
  case (3 s r)
  then show ?case by (rule ucs_final)
qed

text \<open>
  C1. When uniform cost search returns a path, that path is a route from start to goal and
  no route from start to goal is shorter. Throughout the loop, every cost recorded in
  \<open>explored\<close> is the least number of moves from the start to that position, and each pass
  either leaves \<open>explored\<close> as it is or records one position that was not recorded
  before, at a cost that is at least every cost recorded earlier.
\<close>

theorem ucs_optimal:
  assumes "fst (uniformcost_search ident start goal e cap) = Some ps"
  shows "route e start goal ps
       \<and> (\<forall>qs. route e start goal qs \<longrightarrow> length ps \<le> length qs)
       \<and> (\<forall>st. reaches (ucs_body ident goal e cap) (ucs_init ident start) st \<longrightarrow>
            (\<forall>p c. explored st p = Some c \<longrightarrow> shortest_cost e start p c)
          \<and> (\<forall>st'. ucs_body ident goal e cap st = Inl st' \<longrightarrow>
                explored st' = explored st
              \<or> (\<exists>q d. explored st q = None \<and> explored st' = (explored st)(q \<mapsto> d)
                   \<and> shortest_cost e start q d
                   \<and> (\<forall>p c. explored st p = Some c \<longrightarrow> c \<le> d))))"
proof (intro conjI allI impI)
  from ucs_result_cases [of ident start goal e cap] assms
  obtain C where r: "route e start goal ps" and C: "shortest_cost e start goal C"
    and l: "int (length ps) = C + 1"
    by auto
  show "route e start goal ps" by (rule r)
  show "length ps \<le> length qs" if "route e start goal qs" for qs
    using shortest_cost_le [OF C that] l by simp
next
  fix st assume "reaches (ucs_body ident goal e cap) (ucs_init ident start) st"
  then have inv: "ucs_inv e start goal st"
    by (rule reaches_inv) (rule ucs_inv_init, rule ucs_inv_step)
  show "shortest_cost e start p c" if "explored st p = Some c" for p c
    using inv that unfolding ucs_inv_def by blast
  show "explored st' = explored st
              \<or> (\<exists>q d. explored st q = None \<and> explored st' = (explored st)(q \<mapsto> d)
                   \<and> shortest_cost e start q d
                   \<and> (\<forall>p c. explored st p = Some c \<longrightarrow> c \<le> d))"
    if "ucs_body ident goal e cap st = Inl st'" for st'
    using ucs_step_order [OF inv that] .
qed

theorem ucs_optimal_witness:
  "fst (uniformcost_search (\<lambda>k. k) (0, 0) (1, 1) (grid_env 2 2 []) 10) =
       Some [(0, 0), (0, 1), (1, 1)]
   \<and> route (grid_env 2 2 []) (0, 0) (1, 1) [(0, 0), (0, 1), (1, 1)]
   \<and> shortest_cost (grid_env 2 2 []) (0, 0) (1, 1) 2"
proof -
  have u: "fst (uniformcost_search (\<lambda>k. k) (0, 0) (1, 1) (grid_env 2 2 []) 10) =
       Some [(0, 0), (0, 1), (1, 1)]"
    by code_simp
  from ucs_optimal [OF u]
  have r: "route (grid_env 2 2 []) (0, 0) (1, 1) [(0, 0), (0, 1), (1, 1)]"
    and m: "\<And>qs. route (grid_env 2 2 []) (0, 0) (1, 1) qs \<Longrightarrow>
              length [(0, 0), (0, 1), (1, 1) :: Position] \<le> length qs"
    by blast+
  have "shortest_cost (grid_env 2 2 []) (0, 0) (1, 1) 2"
    unfolding shortest_cost_def
  proof (intro conjI allI impI)
    from r show "\<exists>ps. route (grid_env 2 2 []) (0, 0) (1, 1) ps \<and> int (length ps) = 2 + 1"
      by (intro exI [of _ "[(0, 0), (0, 1), (1, 1)]"]) simp
  next
    fix qs assume "route (grid_env 2 2 []) (0, 0) (1, 1) qs"
    from m [OF this] show "2 + 1 \<le> int (length qs)" by simp
  qed
  with u r show ?thesis by blast
qed

section \<open>The invariant of A* search\<close>

lemma reachable_shortest:
  assumes "p \<in> reachable e s"
  shows "\<exists>c. shortest_cost e s p c"
proof -
  let ?P = "\<lambda>n. \<exists>ps. route e s p ps \<and> length ps = n"
  from assms have ex: "\<exists>n. ?P n" unfolding reachable_def by blast
  define n where "n = (LEAST n. ?P n)"
  from ex have Pn: "?P n" unfolding n_def by (rule LeastI_ex)
  have least: "n \<le> length ps" if "route e s p ps" for ps
    unfolding n_def using that by (intro Least_le) blast
  from Pn obtain ps where ps: "route e s p ps" "length ps = n" by blast
  have "shortest_cost e s p (int n - 1)"
    unfolding shortest_cost_def
  proof (intro conjI allI impI)
    from ps show "\<exists>ps. route e s p ps \<and> int (length ps) = int n - 1 + 1" by auto
  next
    fix qs assume "route e s p qs"
    from least [OF this] show "int n - 1 + 1 \<le> int (length qs)" by simp
  qed
  then show ?thesis by blast
qed

lemma astar_inv_init: "astar_inv e start goal h (astar_init ident start goal h)"
proof -
  have "start \<in> reachable e start"
    unfolding reachable_def using route_single by blast
  then show ?thesis
    unfolding astar_inv_def
    using astar_nodes_ok_init [of e start goal h ident]
    by (simp add: astar_init_def heappush_def)
qed

lemma astar_crossing:
  assumes inv: "astar_inv e start goal h st" and con: "consistent e h goal"
  shows "walk e ps \<Longrightarrow> hd ps = start \<Longrightarrow>
     last ps \<in> explored st
     \<or> (\<exists>x \<in> set (frontier st). fst x + 1 \<le> int (length ps) + h (last ps) goal)"
proof (induction ps rule: rev_induct)
  case Nil
  then show ?case by simp
next
  case (snoc q ps)
  from inv have ok: "astar_nodes_ok e start goal h (frontier st)"
    unfolding astar_inv_def by blast
  show ?case
  proof (cases "ps = []")
    case True
    with snoc.prems have q: "q = start" by simp
    from inv have "start \<in> explored st
        \<or> (\<exists>x \<in> set (frontier st). a_position (snd (snd x)) = start \<and> a_g (snd (snd x)) = 0)"
      unfolding astar_inv_def by blast
    then show ?thesis
    proof
      assume "start \<in> explored st"
      with q show ?thesis by simp
    next
      assume "\<exists>x \<in> set (frontier st). a_position (snd (snd x)) = start \<and> a_g (snd (snd x)) = 0"
      then obtain x where x: "x \<in> set (frontier st)" "a_position (snd (snd x)) = start"
        "a_g (snd (snd x)) = 0" by blast
      with ok have "fst x = h start goal" by (auto simp: astar_nodes_ok_def)
      with x(1) q True have "x \<in> set (frontier st)
          \<and> fst x + 1 \<le> int (length (ps @ [q])) + h (last (ps @ [q])) goal" by simp
      then show ?thesis by blast
    qed
  next
    case False
    with snoc.prems have w: "walk e ps" and mv: "is_move e (last ps) q" and hd: "hd ps = start"
      by (auto simp: walk_snoc)
    from con mv have hq: "h (last ps) goal \<le> h q goal + 1"
      unfolding consistent_def by blast
    from snoc.IH [OF w hd] show ?thesis
    proof
      assume lp: "last ps \<in> explored st"
      with inv have "last ps \<in> reachable e start" unfolding astar_inv_def by blast
      from reachable_shortest [OF this] obtain c where c: "shortest_cost e start (last ps) c"
        by blast
      from shortest_cost_le [OF this, of ps] w hd
      have cl: "c + 1 \<le> int (length ps)" by (simp add: route_def)
      from inv lp c mv have "q \<in> explored st
         \<or> (\<exists>x \<in> set (frontier st). a_position (snd (snd x)) = q \<and> a_g (snd (snd x)) \<le> c + 1)"
        unfolding astar_inv_def by blast
      then show ?thesis
      proof
        assume "q \<in> explored st"
        then show ?thesis by simp
      next
        assume "\<exists>x \<in> set (frontier st). a_position (snd (snd x)) = q
                  \<and> a_g (snd (snd x)) \<le> c + 1"
        then obtain x where x: "x \<in> set (frontier st)" "a_position (snd (snd x)) = q"
          "a_g (snd (snd x)) \<le> c + 1" by blast
        with ok have "fst x = a_g (snd (snd x)) + h q goal" by (auto simp: astar_nodes_ok_def)
        with x cl have "x \<in> set (frontier st)
          \<and> fst x + 1 \<le> int (length (ps @ [q])) + h (last (ps @ [q])) goal" by simp
        then show ?thesis by blast
      qed
    next
      assume "\<exists>x \<in> set (frontier st). fst x + 1 \<le> int (length ps) + h (last ps) goal"
      then obtain x where "x \<in> set (frontier st)"
        "fst x + 1 \<le> int (length ps) + h (last ps) goal" by blast
      with hq have "x \<in> set (frontier st)
          \<and> fst x + 1 \<le> int (length (ps @ [q])) + h (last (ps @ [q])) goal" by simp
      then show ?thesis by blast
    qed
  qed
qed

lemma astar_popped:
  assumes inv: "astar_inv e start goal h st"
    and pop: "heappop (frontier st) = Some ((f, i, nd), fr)"
  shows "route e start (a_position nd) (a_path nd)"
    and "int (length (a_path nd)) = a_g nd + 1"
    and "\<And>x. x \<in> set (frontier st) \<Longrightarrow> a_g nd + h (a_position nd) goal \<le> fst x"
proof -
  from inv have ok: "astar_nodes_ok e start goal h (frontier st)"
    unfolding astar_inv_def by blast
  from heappop_set(1) [OF pop] ok
  have r: "route e start (a_position nd) (a_path nd)"
    and l: "int (length (a_path nd)) = a_g nd + 1"
    and f: "f = a_g nd + h (a_position nd) goal"
    by (auto simp: astar_nodes_ok_def)
  show "route e start (a_position nd) (a_path nd)" by (rule r)
  show "int (length (a_path nd)) = a_g nd + 1" by (rule l)
  show "a_g nd + h (a_position nd) goal \<le> fst x" if "x \<in> set (frontier st)" for x
    using heappop_least_fst [OF pop that] f by simp
qed

lemma astar_pop_bound:
  assumes inv: "astar_inv e start goal h st" and con: "consistent e h goal"
    and pop: "heappop (frontier st) = Some ((f, i, nd), fr)"
    and ps: "route e start t ps" and t: "t \<notin> explored st"
  shows "a_g nd + h (a_position nd) goal + 1 \<le> int (length ps) + h t goal"
proof -
  from ps have "walk e ps" "hd ps = start" "last ps = t" by (auto simp: route_def)
  from astar_crossing [OF inv con this(1,2)] this(3) t
  obtain x where "x \<in> set (frontier st)" "fst x + 1 \<le> int (length ps) + h t goal" by auto
  with astar_popped(3) [OF inv pop this(1)] show ?thesis by simp
qed

lemma astar_pop_optimal:
  assumes inv: "astar_inv e start goal h st" and con: "consistent e h goal"
    and pop: "heappop (frontier st) = Some ((f, i, nd), fr)"
    and new: "a_position nd \<notin> explored st"
  shows "shortest_cost e start (a_position nd) (a_g nd)"
  unfolding shortest_cost_def
proof (intro conjI allI impI)
  from astar_popped(1,2) [OF inv pop]
  show "\<exists>ps. route e start (a_position nd) ps \<and> int (length ps) = a_g nd + 1" by blast
next
  fix ps assume "route e start (a_position nd) ps"
  from astar_pop_bound [OF inv con pop this new] show "a_g nd + 1 \<le> int (length ps)" by simp
qed

lemma astar_inv_stale:
  assumes inv: "astar_inv e start goal h st"
    and pop: "heappop (frontier st) = Some ((f, i, nd), fr)"
    and old: "a_position nd \<in> explored st"
  shows "astar_inv e start goal h (st\<lparr>frontier := fr\<rparr>)"
proof -
  have sub: "set fr \<subseteq> set (frontier st)" by (rule heappop_set(2) [OF pop])
  have keep: "x \<in> set fr" if "x \<in> set (frontier st)" "a_position (snd (snd x)) \<notin> explored st"
    for x
  proof -
    from that(2) old have "x \<noteq> (f, i, nd)" by auto
    from heappop_rest [OF pop that(1) this] show ?thesis .
  qed
  from inv have ok: "astar_nodes_ok e start goal h (frontier st)"
    and a: "explored st \<subseteq> reachable e start"
    and b: "start \<in> explored st
        \<or> (\<exists>x \<in> set (frontier st). a_position (snd (snd x)) = start \<and> a_g (snd (snd x)) = 0)"
    and c: "\<forall>p c q. p \<in> explored st \<longrightarrow> shortest_cost e start p c \<longrightarrow> is_move e p q \<longrightarrow>
         q \<in> explored st
         \<or> (\<exists>x \<in> set (frontier st). a_position (snd (snd x)) = q \<and> a_g (snd (snd x)) \<le> c + 1)"
    and d: "goal \<notin> explored st"
    and o: "\<forall>p c C. p \<in> explored st \<longrightarrow> shortest_cost e start p c \<longrightarrow>
         shortest_cost e start goal C \<longrightarrow> c + h p goal \<le> C + h goal goal"
    and f: "finite (explored st)" "expansions st = int (card (explored st))"
    unfolding astar_inv_def by blast+
  have ok': "astar_nodes_ok e start goal h fr"
    using ok sub by (auto simp: astar_nodes_ok_def)
  have b': "start \<in> explored st
        \<or> (\<exists>x \<in> set fr. a_position (snd (snd x)) = start \<and> a_g (snd (snd x)) = 0)"
    using b keep by blast
  have c': "\<forall>p c q. p \<in> explored st \<longrightarrow> shortest_cost e start p c \<longrightarrow> is_move e p q \<longrightarrow>
         q \<in> explored st
         \<or> (\<exists>x \<in> set fr. a_position (snd (snd x)) = q \<and> a_g (snd (snd x)) \<le> c + 1)"
  proof (intro allI impI)
    fix p c q assume "p \<in> explored st" "shortest_cost e start p c" "is_move e p q"
    with c have "q \<in> explored st
         \<or> (\<exists>x \<in> set (frontier st). a_position (snd (snd x)) = q \<and> a_g (snd (snd x)) \<le> c + 1)"
      by blast
    with keep show "q \<in> explored st
         \<or> (\<exists>x \<in> set fr. a_position (snd (snd x)) = q \<and> a_g (snd (snd x)) \<le> c + 1)"
      by blast
  qed
  show ?thesis
    unfolding astar_inv_def using ok' a b' c' d o f by simp
qed

lemma astar_inv_expand:
  assumes inv: "astar_inv e start goal h st" and con: "consistent e h goal"
    and pop: "heappop (frontier st) = Some ((f, i, nd), fr)"
    and ng: "a_position nd \<noteq> goal"
    and new: "a_position nd \<notin> explored st"
    and ex: "astar_expand e (insert (a_position nd) (explored st)) ident h goal nd
         [''N'', ''E'', ''S'', ''W''] (fr, created st) = (fr', k)"
    and ok': "astar_nodes_ok e start goal h fr'"
  shows "astar_inv e start goal h
           \<lparr>frontier = fr', explored = insert (a_position nd) (explored st),
            peak = pk, expansions = expansions st + 1, created = k\<rparr>"
proof -
  let ?pos = "a_position nd"
  let ?ex = "insert ?pos (explored st)"
  have opt: "shortest_cost e start ?pos (a_g nd)"
    by (rule astar_pop_optimal [OF inv con pop new])
  have sub: "set fr \<subseteq> set fr'" by (rule astar_expand_sub [OF ex])
  have keep: "x \<in> set fr'" if "x \<in> set (frontier st)" "a_position (snd (snd x)) \<noteq> ?pos" for x
  proof -
    from that(2) have "x \<noteq> (f, i, nd)" by auto
    from heappop_rest [OF pop that(1) this] sub show ?thesis by blast
  qed
  from inv have a: "explored st \<subseteq> reachable e start"
    and b: "start \<in> explored st
        \<or> (\<exists>x \<in> set (frontier st). a_position (snd (snd x)) = start \<and> a_g (snd (snd x)) = 0)"
    and c: "\<forall>p c q. p \<in> explored st \<longrightarrow> shortest_cost e start p c \<longrightarrow> is_move e p q \<longrightarrow>
         q \<in> explored st
         \<or> (\<exists>x \<in> set (frontier st). a_position (snd (snd x)) = q \<and> a_g (snd (snd x)) \<le> c + 1)"
    and d: "goal \<notin> explored st"
    and o: "\<forall>p c C. p \<in> explored st \<longrightarrow> shortest_cost e start p c \<longrightarrow>
         shortest_cost e start goal C \<longrightarrow> c + h p goal \<le> C + h goal goal"
    and f: "finite (explored st)" "expansions st = int (card (explored st))"
    unfolding astar_inv_def by blast+
  have a': "?ex \<subseteq> reachable e start"
    using a astar_popped(1) [OF inv pop] unfolding reachable_def by blast
  have b': "start \<in> ?ex
        \<or> (\<exists>x \<in> set fr'. a_position (snd (snd x)) = start \<and> a_g (snd (snd x)) = 0)"
  proof (cases "start = ?pos")
    case True
    then show ?thesis by simp
  next
    case False
    with b keep show ?thesis by auto
  qed
  have c': "\<forall>p c q. p \<in> ?ex \<longrightarrow> shortest_cost e start p c \<longrightarrow> is_move e p q \<longrightarrow>
         q \<in> ?ex
         \<or> (\<exists>x \<in> set fr'. a_position (snd (snd x)) = q \<and> a_g (snd (snd x)) \<le> c + 1)"
  proof (intro allI impI)
    fix p c q assume pin: "p \<in> ?ex" and pc: "shortest_cost e start p c" and mv: "is_move e p q"
    show "q \<in> ?ex
         \<or> (\<exists>x \<in> set fr'. a_position (snd (snd x)) = q \<and> a_g (snd (snd x)) \<le> c + 1)"
    proof (cases "q \<in> ?ex")
      case True
      then show ?thesis by blast
    next
      case qnew: False
      show ?thesis
      proof (cases "p = ?pos")
        case True
        with pc opt have cg: "c = a_g nd" by (auto dest: shortest_cost_unique)
        from mv True obtain act where act: "act \<in> set [''N'', ''E'', ''S'', ''W'']"
          and q: "q = move_to e ?pos act" and nw: "\<not> is_wall e (fst q) (snd q)"
          unfolding is_move_def by blast
        from astar_expand_all [OF ex act nw [unfolded q] qnew [unfolded q]]
        obtain j where "(a_g nd + 1 + h q goal, j,
            ANode q (Some nd) (Some act) (a_g nd + 1) (h q goal)) \<in> set fr'"
          unfolding q by blast
        then have "\<exists>x \<in> set fr'. a_position (snd (snd x)) = q \<and> a_g (snd (snd x)) \<le> c + 1"
          using cg by force
        then show ?thesis by blast
      next
        case False
        with pin have "p \<in> explored st" by simp
        with c pc mv have "q \<in> explored st
         \<or> (\<exists>x \<in> set (frontier st). a_position (snd (snd x)) = q \<and> a_g (snd (snd x)) \<le> c + 1)"
          by blast
        moreover from qnew have "q \<notin> explored st" "q \<noteq> ?pos" by auto
        ultimately obtain x where "x \<in> set (frontier st)" "a_position (snd (snd x)) = q"
          "a_g (snd (snd x)) \<le> c + 1" by blast
        with keep [OF this(1)] \<open>q \<noteq> ?pos\<close> show ?thesis by blast
      qed
    qed
  qed
  have d': "goal \<notin> ?ex" using d ng by auto
  have o': "\<forall>p c C. p \<in> ?ex \<longrightarrow> shortest_cost e start p c \<longrightarrow>
         shortest_cost e start goal C \<longrightarrow> c + h p goal \<le> C + h goal goal"
  proof (intro allI impI)
    fix p c C assume pin: "p \<in> ?ex" and pc: "shortest_cost e start p c"
      and gC: "shortest_cost e start goal C"
    show "c + h p goal \<le> C + h goal goal"
    proof (cases "p = ?pos")
      case True
      with pc opt have cg: "c = a_g nd" by (auto dest: shortest_cost_unique)
      from gC obtain qs where qs: "route e start goal qs" "int (length qs) = C + 1"
        unfolding shortest_cost_def by blast
      from astar_pop_bound [OF inv con pop qs(1) d] qs(2) cg True show ?thesis by simp
    next
      case False
      with pin have "p \<in> explored st" by simp
      with o pc gC show ?thesis by blast
    qed
  qed
  have f': "finite ?ex" "expansions st + 1 = int (card ?ex)"
    using f new by simp_all
  show ?thesis
    unfolding astar_inv_def using ok' a' b' c' d' o' f' by simp
qed

lemma astar_inv_step:
  assumes inv: "astar_inv e start goal h st" and con: "consistent e h goal"
    and body: "astar_body ident goal e h cap st = Inl st'"
  shows "astar_inv e start goal h st'"
  using body
proof (cases rule: astar_body_InlE)
  case (stale f i nd fr)
  from astar_inv_stale [OF inv stale(1,3)] stale(4) show ?thesis by simp
next
  case (expand f i nd fr fr' k)
  from inv have "astar_nodes_ok e start goal h (frontier st)" unfolding astar_inv_def by blast
  from astar_nodes_ok_step [OF this body] expand(6)
  have "astar_nodes_ok e start goal h fr'" by simp
  from astar_inv_expand [OF inv con expand(1,2,3,5) this] expand(6) show ?thesis by simp
qed

lemma astar_final:
  assumes inv: "astar_inv e start goal h st" and con: "consistent e h goal"
    and body: "astar_body ident goal e h cap st = Inr r"
  shows "(\<exists>ps C Y. fst r = Some ps \<and> route e start goal ps \<and> shortest_cost e start goal C
            \<and> int (length ps) = C + 1 \<and> nodes_expanded (snd r) = int (card Y) \<and> goal \<notin> Y
            \<and> (\<forall>p \<in> Y. \<exists>c. shortest_cost e start p c \<and> c + h p goal \<le> C + h goal goal))
       \<or> (fst r = None \<and> path_length (snd r) = None \<and> goal \<notin> reachable e start
            \<and> finite (reachable e start)
            \<and> nodes_expanded (snd r) = int (card (reachable e start)))
       \<or> (fst r = None \<and> path_length (snd r) = None \<and> cap < nodes_expanded (snd r)
            \<and> (finite (reachable e start) \<longrightarrow>
                  nodes_expanded (snd r) \<le> int (card (reachable e start))))"
  using body
proof (cases rule: astar_body_InrE)
  case empty
  have "reachable e start \<subseteq> explored st"
  proof
    fix p assume "p \<in> reachable e start"
    then obtain ps where "walk e ps" "hd ps = start" "last ps = p"
      unfolding reachable_def route_def by blast
    from astar_crossing [OF inv con this(1,2)] this(3) empty(1) show "p \<in> explored st"
      by simp
  qed
  moreover from inv have "explored st \<subseteq> reachable e start" unfolding astar_inv_def by blast
  ultimately have eq: "reachable e start = explored st" by blast
  from inv have "goal \<notin> explored st" "finite (explored st)"
    "expansions st = int (card (explored st))"
    unfolding astar_inv_def by blast+
  with eq empty(2) show ?thesis by simp
next
  case (found f i nd fr)
  from inv have ng: "goal \<notin> explored st" and n: "expansions st = int (card (explored st))"
    and sub: "explored st \<subseteq> reachable e start"
    and o: "\<forall>p c C. p \<in> explored st \<longrightarrow> shortest_cost e start p c \<longrightarrow>
         shortest_cost e start goal C \<longrightarrow> c + h p goal \<le> C + h goal goal"
    unfolding astar_inv_def by blast+
  from ng found(2) have new: "a_position nd \<notin> explored st" by simp
  from astar_pop_optimal [OF inv con found(1) new] found(2)
  have opt: "shortest_cost e start goal (a_g nd)" by simp
  have all: "\<exists>c. shortest_cost e start p c \<and> c + h p goal \<le> a_g nd + h goal goal"
    if "p \<in> explored st" for p
  proof -
    from that sub have "p \<in> reachable e start" by blast
    from reachable_shortest [OF this] obtain c where "shortest_cost e start p c" by blast
    with o that opt show ?thesis by blast
  qed
  from astar_popped(1,2) [OF inv found(1)] found(2)
  have "route e start goal (a_path nd)" "int (length (a_path nd)) = a_g nd + 1" by simp_all
  with opt n ng all found(3) have "\<exists>ps C Y. fst r = Some ps \<and> route e start goal ps
            \<and> shortest_cost e start goal C
            \<and> int (length ps) = C + 1 \<and> nodes_expanded (snd r) = int (card Y) \<and> goal \<notin> Y
            \<and> (\<forall>p \<in> Y. \<exists>c. shortest_cost e start p c \<and> c + h p goal \<le> C + h goal goal)"
    by (intro exI [of _ "a_path nd"] exI [of _ "a_g nd"] exI [of _ "explored st"]) auto
  then show ?thesis by blast
next
  case (capped f i nd fr)
  from astar_popped(1) [OF inv capped(1)] have "a_position nd \<in> reachable e start"
    unfolding reachable_def by blast
  moreover from inv have "explored st \<subseteq> reachable e start" unfolding astar_inv_def by blast
  ultimately have sub: "insert (a_position nd) (explored st) \<subseteq> reachable e start" by blast
  from inv have n: "expansions st = int (card (explored st))"
    and fin: "finite (explored st)"
    unfolding astar_inv_def by blast+
  have "expansions st + 1 \<le> int (card (reachable e start))" if "finite (reachable e start)"
  proof -
    from card_mono [OF that sub] capped(3) fin n show ?thesis by simp
  qed
  with capped(4,5) show ?thesis by simp
qed

lemma astar_result_cases:
  fixes ident start goal e h cap
  defines "r \<equiv> astar_search ident start goal e h cap"
  assumes con: "consistent e h goal"
  shows "(\<exists>ps C Y. fst r = Some ps \<and> route e start goal ps \<and> shortest_cost e start goal C
            \<and> int (length ps) = C + 1 \<and> nodes_expanded (snd r) = int (card Y) \<and> goal \<notin> Y
            \<and> (\<forall>p \<in> Y. \<exists>c. shortest_cost e start p c \<and> c + h p goal \<le> C + h goal goal))
       \<or> (fst r = None \<and> path_length (snd r) = None \<and> goal \<notin> reachable e start
            \<and> finite (reachable e start)
            \<and> nodes_expanded (snd r) = int (card (reachable e start)))
       \<or> (fst r = None \<and> path_length (snd r) = None \<and> cap < nodes_expanded (snd r)
            \<and> (finite (reachable e start) \<longrightarrow>
                  nodes_expanded (snd r) \<le> int (card (reachable e start))))"
  unfolding r_def astar_search_init
proof (rule astar_loop_rule [where I = "astar_inv e start goal h"], goal_cases)
  case 1
  show ?case by (rule astar_inv_init)
next
  case (2 s s')
  from astar_inv_step [OF 2(1) con 2(2)] show ?case .
next
  case (3 s r)
  from astar_final [OF 3(1) con 3(2)] show ?case .
qed

section \<open>A* with an arbitrary heuristic: what is explored\<close>

lemma astar_closure_init: "astar_closure e start goal h (astar_init ident start goal h)"
proof -
  have "start \<in> reachable e start"
    unfolding reachable_def using route_single by blast
  then show ?thesis
    unfolding astar_closure_def
    using astar_nodes_ok_init [of e start goal h ident]
    by (simp add: astar_init_def heappush_def)
qed

lemma astar_closure_step:
  assumes inv: "astar_closure e start goal h st"
    and body: "astar_body ident goal e h cap st = Inl st'"
  shows "astar_closure e start goal h st'"
proof -
  from inv have ok: "astar_nodes_ok e start goal h (frontier st)"
    and a: "explored st \<subseteq> reachable e start"
    and b: "start \<in> explored st \<or> (\<exists>x \<in> set (frontier st). a_position (snd (snd x)) = start)"
    and c: "\<forall>p q. p \<in> explored st \<longrightarrow> is_move e p q \<longrightarrow>
         q \<in> explored st \<or> (\<exists>x \<in> set (frontier st). a_position (snd (snd x)) = q)"
    and f: "finite (explored st)" "expansions st = int (card (explored st))"
    unfolding astar_closure_def by blast+
  have ok': "astar_nodes_ok e start goal h (frontier st')"
    by (rule astar_nodes_ok_step [OF ok body])
  from body show ?thesis
  proof (cases rule: astar_body_InlE)
    case (stale f i nd fr)
    have keep: "x \<in> set fr"
      if "x \<in> set (frontier st)" "a_position (snd (snd x)) \<notin> explored st" for x
    proof -
      from that(2) stale(3) have "x \<noteq> (f, i, nd)" by auto
      from heappop_rest [OF stale(1) that(1) this] show ?thesis .
    qed
    have b': "start \<in> explored st \<or> (\<exists>x \<in> set fr. a_position (snd (snd x)) = start)"
      using b keep by blast
    have c': "\<forall>p q. p \<in> explored st \<longrightarrow> is_move e p q \<longrightarrow>
         q \<in> explored st \<or> (\<exists>x \<in> set fr. a_position (snd (snd x)) = q)"
      using c keep by blast
    from ok' a b' c' f stale(4) show ?thesis
      unfolding astar_closure_def by simp
  next
    case (expand f' i nd fr fr' k)
    let ?pos = "a_position nd"
    let ?ex = "insert ?pos (explored st)"
    have sub: "set fr \<subseteq> set fr'" by (rule astar_expand_sub [OF expand(5)])
    have keep: "x \<in> set fr'"
      if "x \<in> set (frontier st)" "a_position (snd (snd x)) \<noteq> ?pos" for x
    proof -
      from that(2) have "x \<noteq> (f', i, nd)" by auto
      from heappop_rest [OF expand(1) that(1) this] sub show ?thesis by blast
    qed
    from heappop_set(1) [OF expand(1)] ok have "route e start ?pos (a_path nd)"
      by (auto simp: astar_nodes_ok_def)
    with a have a': "?ex \<subseteq> reachable e start" unfolding reachable_def by blast
    have b': "start \<in> ?ex \<or> (\<exists>x \<in> set fr'. a_position (snd (snd x)) = start)"
      using b keep by (cases "start = ?pos") auto
    have c': "\<forall>p q. p \<in> ?ex \<longrightarrow> is_move e p q \<longrightarrow>
         q \<in> ?ex \<or> (\<exists>x \<in> set fr'. a_position (snd (snd x)) = q)"
    proof (intro allI impI)
      fix p q assume pin: "p \<in> ?ex" and mv: "is_move e p q"
      show "q \<in> ?ex \<or> (\<exists>x \<in> set fr'. a_position (snd (snd x)) = q)"
      proof (cases "q \<in> ?ex")
        case True
        then show ?thesis by blast
      next
        case qnew: False
        show ?thesis
        proof (cases "p = ?pos")
          case True
          from mv True obtain act where act: "act \<in> set [''N'', ''E'', ''S'', ''W'']"
            and q: "q = move_to e ?pos act" and nw: "\<not> is_wall e (fst q) (snd q)"
            unfolding is_move_def by blast
          from astar_expand_all [OF expand(5) act nw [unfolded q] qnew [unfolded q]]
          obtain j where "(a_g nd + 1 + h q goal, j,
              ANode q (Some nd) (Some act) (a_g nd + 1) (h q goal)) \<in> set fr'"
            unfolding q by blast
          then have "\<exists>x \<in> set fr'. a_position (snd (snd x)) = q" by force
          then show ?thesis by blast
        next
          case False
          with pin have "p \<in> explored st" by simp
          with c mv have "q \<in> explored st
              \<or> (\<exists>x \<in> set (frontier st). a_position (snd (snd x)) = q)" by blast
          moreover from qnew have "q \<notin> explored st" "q \<noteq> ?pos" by auto
          ultimately obtain x where "x \<in> set (frontier st)" "a_position (snd (snd x)) = q"
            by blast
          with keep [OF this(1)] \<open>q \<noteq> ?pos\<close> show ?thesis by blast
        qed
      qed
    qed
    have f': "finite ?ex" "expansions st + 1 = int (card ?ex)"
      using f expand(3) by simp_all
    from ok' a' b' c' f' expand(6) show ?thesis
      unfolding astar_closure_def by simp
  qed
qed

lemma astar_closure_walk:
  assumes inv: "astar_closure e start goal h st" and em: "frontier st = []"
  shows "walk e ps \<Longrightarrow> hd ps = start \<Longrightarrow> last ps \<in> explored st"
proof (induction ps rule: rev_induct)
  case Nil
  then show ?case by simp
next
  case (snoc q ps)
  show ?case
  proof (cases "ps = []")
    case True
    with snoc.prems inv em show ?thesis unfolding astar_closure_def by simp
  next
    case False
    with snoc.prems have w: "walk e ps" and mv: "is_move e (last ps) q" and hd: "hd ps = start"
      by (auto simp: walk_snoc)
    from snoc.IH [OF w hd] inv mv em show ?thesis unfolding astar_closure_def by fastforce
  qed
qed

lemma astar_unreachable:
  assumes un: "goal \<notin> reachable e start" and fin: "finite (reachable e start)"
    and cap: "int (card (reachable e start)) \<le> cap"
  shows "fst (astar_search ident start goal e h cap) = None
       \<and> path_length (snd (astar_search ident start goal e h cap)) = None
       \<and> nodes_expanded (snd (astar_search ident start goal e h cap))
           = int (card (reachable e start))"
  unfolding astar_search_init
proof (rule astar_loop_rule [where I = "astar_closure e start goal h"], goal_cases)
  case 1
  show ?case by (rule astar_closure_init)
next
  case (2 s s')
  then show ?case by (rule astar_closure_step)
next
  case (3 s r)
  from 3(1) have ok: "astar_nodes_ok e start goal h (frontier s)"
    and a: "explored s \<subseteq> reachable e start"
    and f: "finite (explored s)" "expansions s = int (card (explored s))"
    unfolding astar_closure_def by blast+
  from 3(2) show ?case
  proof (cases rule: astar_body_InrE)
    case empty
    have "reachable e start \<subseteq> explored s"
    proof
      fix p assume "p \<in> reachable e start"
      then obtain ps where "walk e ps" "hd ps = start" "last ps = p"
        unfolding reachable_def route_def by blast
      with astar_closure_walk [OF 3(1) empty(1)] show "p \<in> explored s" by blast
    qed
    with a have "reachable e start = explored s" by blast
    with f empty(2) show ?thesis by simp
  next
    case (found f i nd fr)
    from heappop_set(1) [OF found(1)] ok found(2) have "route e start goal (a_path nd)"
      by (auto simp: astar_nodes_ok_def)
    with un show ?thesis unfolding reachable_def by blast
  next
    case (capped f' i nd fr)
    from heappop_set(1) [OF capped(1)] ok have "route e start (a_position nd) (a_path nd)"
      by (auto simp: astar_nodes_ok_def)
    with a have "insert (a_position nd) (explored s) \<subseteq> reachable e start"
      unfolding reachable_def by blast
    from card_mono [OF fin this] capped(3) f cap capped(4) show ?thesis by simp
  qed
qed

lemma ucs_unreachable:
  assumes un: "goal \<notin> reachable e start" and fin: "finite (reachable e start)"
    and cap: "int (card (reachable e start)) \<le> cap"
  shows "fst (uniformcost_search ident start goal e cap) = None
       \<and> path_length (snd (uniformcost_search ident start goal e cap)) = None
       \<and> nodes_expanded (snd (uniformcost_search ident start goal e cap))
           = int (card (reachable e start))"
proof -
  have "\<not> route e start goal ps" for ps
    using un unfolding reachable_def by blast
  with ucs_result_cases [of ident start goal e cap] fin cap show ?thesis
    by auto
qed

text \<open>
  C7. When no route leads from start to goal, and the cells reachable from start are
  finitely many and no more than the cap, both searches return "not found" (no path, no
  path length), and the reported \<open>nodes_expanded\<close> is the number of reachable cells, the
  start included. This holds for every heuristic.
\<close>

theorem unreachable_goal:
  assumes "goal \<notin> reachable e start" and "finite (reachable e start)"
    and "int (card (reachable e start)) \<le> cap"
  shows "fst (uniformcost_search ident start goal e cap) = None
       \<and> path_length (snd (uniformcost_search ident start goal e cap)) = None
       \<and> nodes_expanded (snd (uniformcost_search ident start goal e cap))
           = int (card (reachable e start))
       \<and> fst (astar_search ident start goal e h cap) = None
       \<and> path_length (snd (astar_search ident start goal e h cap)) = None
       \<and> nodes_expanded (snd (astar_search ident start goal e h cap))
           = int (card (reachable e start))"
  using ucs_unreachable [OF assms, of ident] astar_unreachable [OF assms, of ident h]
  by simp

lemma reachable_closed:
  assumes "s \<in> S" and "\<And>p q. p \<in> S \<Longrightarrow> is_move e p q \<Longrightarrow> q \<in> S"
  shows "reachable e s \<subseteq> S"
proof
  fix t assume "t \<in> reachable e s"
  then obtain ps where ps: "walk e ps" "hd ps = s" "last ps = t"
    unfolding reachable_def route_def by blast
  have "walk e qs \<Longrightarrow> hd qs = s \<Longrightarrow> last qs \<in> S" for qs
  proof (induction qs rule: rev_induct)
    case Nil
    then show ?case by simp
  next
    case (snoc q qs)
    show ?case
    proof (cases "qs = []")
      case True
      with snoc.prems assms(1) show ?thesis by simp
    next
      case False
      with snoc.prems have "walk e qs" "is_move e (last qs) q" "hd qs = s"
        by (auto simp: walk_snoc)
      with snoc.IH assms(2) show ?thesis by auto
    qed
  qed
  with ps show "t \<in> S" by blast
qed

lemma cardinal_deltas_simps:
  "cardinal_deltas ''N'' = (-1, 0)" "cardinal_deltas ''E'' = (0, 1)"
  "cardinal_deltas ''S'' = (1, 0)" "cardinal_deltas ''W'' = (0, -1)"
  by (simp_all add: cardinal_deltas_def)

lemma is_move_grid:
  "is_move (grid_env rows cols obstacles) (r, c) q \<longleftrightarrow>
     (q = (r - 1, c) \<or> q = (r, c + 1) \<or> q = (r + 1, c) \<or> q = (r, c - 1))
     \<and> 0 \<le> fst q \<and> fst q < rows \<and> 0 \<le> snd q \<and> snd q < cols \<and> q \<notin> set obstacles"
  unfolding is_move_def move_to_def grid_env_def
  by (simp add: cardinal_deltas_simps) (cases q; auto)

theorem unreachable_goal_witness:
  "(2, 2) \<notin> reachable (grid_env 3 3 [(1, 2), (2, 1)]) (0, 0)
   \<and> finite (reachable (grid_env 3 3 [(1, 2), (2, 1)]) (0, 0))
   \<and> int (card (reachable (grid_env 3 3 [(1, 2), (2, 1)]) (0, 0))) \<le> 10
   \<and> uniformcost_search (\<lambda>k. k) (0, 0) (2, 2) (grid_env 3 3 [(1, 2), (2, 1)]) 10 =
       (None, \<lparr>nodes_expanded = 6, path_length = None, frontier_peak = 4\<rparr>)
   \<and> int (card (reachable (grid_env 3 3 [(1, 2), (2, 1)]) (0, 0))) = 6
   \<and> fst (astar_search (\<lambda>k. k) (0, 0) (2, 2) (grid_env 3 3 [(1, 2), (2, 1)])
        manhattan_distance 10) = None
   \<and> nodes_expanded (snd (astar_search (\<lambda>k. k) (0, 0) (2, 2)
        (grid_env 3 3 [(1, 2), (2, 1)]) manhattan_distance 10)) = 6"
proof -
  let ?e = "grid_env 3 3 [(1, 2), (2, 1)]"
  let ?S = "{(0, 0), (0, 1), (0, 2), (1, 0), (1, 1), (2, 0)} :: Position set"
  have sub: "reachable ?e (0, 0) \<subseteq> ?S"
  proof (rule reachable_closed)
    show "(0, 0) \<in> ?S" by simp
  next
    fix p q assume p: "p \<in> ?S" and mv: "is_move ?e p q"
    from p consider "p = (0, 0)" | "p = (0, 1)" | "p = (0, 2)" | "p = (1, 0)"
      | "p = (1, 1)" | "p = (2, 0)" by blast
    then show "q \<in> ?S"
    proof cases
      case 1 with mv show ?thesis by (auto simp: is_move_grid)
    next
      case 2 with mv show ?thesis by (auto simp: is_move_grid)
    next
      case 3 with mv show ?thesis by (auto simp: is_move_grid)
    next
      case 4 with mv show ?thesis by (auto simp: is_move_grid)
    next
      case 5 with mv show ?thesis by (auto simp: is_move_grid)
    next
      case 6 with mv show ?thesis by (auto simp: is_move_grid)
    qed
  qed
  then have un: "(2, 2) \<notin> reachable ?e (0, 0)" by auto
  from sub have fin: "finite (reachable ?e (0, 0))" by (rule finite_subset) simp
  from card_mono [OF _ sub] have "card (reachable ?e (0, 0)) \<le> card ?S" by simp
  also have "card ?S \<le> 10" by simp
  finally have cap: "int (card (reachable ?e (0, 0))) \<le> 10" by simp
  have u: "uniformcost_search (\<lambda>k. k) (0, 0) (2, 2) ?e 10 =
       (None, \<lparr>nodes_expanded = 6, path_length = None, frontier_peak = 4\<rparr>)"
    by code_simp
  note r = unreachable_goal [OF un fin cap, of "\<lambda>k. k" manhattan_distance]
  from r u have n: "int (card (reachable ?e (0, 0))) = 6" by simp
  from r n have a: "fst (astar_search (\<lambda>k. k) (0, 0) (2, 2) ?e manhattan_distance 10) = None"
    "nodes_expanded (snd (astar_search (\<lambda>k. k) (0, 0) (2, 2) ?e manhattan_distance 10)) = 6"
    by simp_all
  from un fin cap u n a show ?thesis by blast
qed

section \<open>The Manhattan distance\<close>

lemma manhattan_consistent:
  assumes "unit_moves e"
  shows "consistent e manhattan_distance goal"
  unfolding consistent_def
proof (intro allI impI)
  fix p q assume "is_move e p q"
  then obtain act where act: "act \<in> set [''N'', ''E'', ''S'', ''W'']"
    and q: "q = move_to e p act"
    unfolding is_move_def by blast
  from assms act have "\<bar>fst (MOVE_DELTAS e act)\<bar> + \<bar>snd (MOVE_DELTAS e act)\<bar> = 1"
    unfolding unit_moves_def by blast
  then show "manhattan_distance p goal \<le> manhattan_distance q goal + 1"
    unfolding q manhattan_distance_def move_to_def by auto
qed

lemma manhattan_goal: "manhattan_distance goal goal = 0"
  by (simp add: manhattan_distance_def)

lemma manhattan_pos: "p \<noteq> goal \<Longrightarrow> 1 \<le> manhattan_distance p goal"
  unfolding manhattan_distance_def by (cases p; cases goal) auto

lemma ucs_result_elim:
  obtains (found) ps C X where
      "fst (uniformcost_search ident start goal e cap) = Some ps" "route e start goal ps"
      "shortest_cost e start goal C" "int (length ps) = C + 1" "finite X"
      "nodes_expanded (snd (uniformcost_search ident start goal e cap)) = int (card X)"
      "\<And>p c. shortest_cost e start p c \<Longrightarrow> c < C \<Longrightarrow> p \<in> X"
  | (exhausted) "fst (uniformcost_search ident start goal e cap) = None"
      "goal \<notin> reachable e start" "finite (reachable e start)"
      "nodes_expanded (snd (uniformcost_search ident start goal e cap))
         = int (card (reachable e start))"
  | (capped) "fst (uniformcost_search ident start goal e cap) = None"
      "cap < nodes_expanded (snd (uniformcost_search ident start goal e cap))"
proof -
  from ucs_result_cases [of ident start goal e cap] show ?thesis
  proof (elim disjE exE conjE, goal_cases)
    case (1 ps C X)
    then show ?case by (intro found [of ps C X]) blast+
  next
    case 2
    then show ?case by (intro exhausted)
  next
    case 3
    then show ?case by (intro capped)
  qed
qed

lemma astar_result_elim:
  assumes "consistent e h goal"
  obtains (found) ps C Y where
      "fst (astar_search ident start goal e h cap) = Some ps" "route e start goal ps"
      "shortest_cost e start goal C" "int (length ps) = C + 1"
      "nodes_expanded (snd (astar_search ident start goal e h cap)) = int (card Y)"
      "goal \<notin> Y"
      "\<And>p. p \<in> Y \<Longrightarrow> \<exists>c. shortest_cost e start p c \<and> c + h p goal \<le> C + h goal goal"
  | (exhausted) "fst (astar_search ident start goal e h cap) = None"
      "goal \<notin> reachable e start" "finite (reachable e start)"
      "nodes_expanded (snd (astar_search ident start goal e h cap))
         = int (card (reachable e start))"
  | (capped) "fst (astar_search ident start goal e h cap) = None"
      "cap < nodes_expanded (snd (astar_search ident start goal e h cap))"
proof -
  from astar_result_cases [OF assms, of ident start cap] show ?thesis
  proof (elim disjE exE conjE, goal_cases)
    case (1 ps C Y)
    then show ?case by (intro found [of ps C Y]) blast+
  next
    case 2
    then show ?case by (intro exhausted)
  next
    case 3
    then show ?case by (intro capped)
  qed
qed

text \<open>
  C2. In an environment whose four moves are unit steps, a path returned by uniform cost
  search and a path returned by A* with the Manhattan distance, for the same start, goal
  and environment, have the same length, whatever identities the nodes of the two calls
  receive.
\<close>

theorem ucs_astar_equal_length:
  assumes "unit_moves e"
    and "fst (uniformcost_search ident start goal e cap) = Some ps"
    and "fst (astar_search ident' start goal e manhattan_distance cap) = Some qs"
  shows "length ps = length qs"
proof -
  note con = manhattan_consistent [OF assms(1), of goal]
  show ?thesis
  proof (cases rule: ucs_result_elim [of ident start goal e cap])
    case (found ps' C X)
    from con show ?thesis
    proof (cases rule: astar_result_elim [where ident = ident' and start = start and cap = cap])
      case (found qs' D Y)
      from shortest_cost_unique [OF found(3) \<open>shortest_cost e start goal C\<close>]
        found(1,4) \<open>fst (uniformcost_search ident start goal e cap) = Some ps'\<close>
        \<open>int (length ps') = C + 1\<close> assms(2,3)
      show ?thesis by simp
    next
      case exhausted
      with assms(3) show ?thesis by simp
    next
      case capped
      with assms(3) show ?thesis by simp
    qed
  next
    case exhausted
    with assms(2) show ?thesis by simp
  next
    case capped
    with assms(2) show ?thesis by simp
  qed
qed

lemma unit_moves_grid: "unit_moves (grid_env rows cols obstacles)"
  by (simp add: unit_moves_def grid_env_def cardinal_deltas_simps)

theorem ucs_astar_equal_length_witness:
  "unit_moves (grid_env 2 2 [])
   \<and> fst (uniformcost_search (\<lambda>k. k) (0, 0) (1, 1) (grid_env 2 2 []) 10) =
       Some [(0, 0), (0, 1), (1, 1)]
   \<and> fst (astar_search (\<lambda>k. 100 - k) (0, 0) (1, 1) (grid_env 2 2 []) manhattan_distance 10) =
       Some [(0, 0), (1, 0), (1, 1)]
   \<and> length [(0, 0), (0, 1), (1, 1) :: Position] = length [(0, 0), (1, 0), (1, 1) :: Position]"
proof -
  have m: "unit_moves (grid_env 2 2 [])" by (rule unit_moves_grid)
  have u: "fst (uniformcost_search (\<lambda>k. k) (0, 0) (1, 1) (grid_env 2 2 []) 10) =
       Some [(0, 0), (0, 1), (1, 1)]"
    by code_simp
  have a: "fst (astar_search (\<lambda>k. 100 - k) (0, 0) (1, 1) (grid_env 2 2 [])
       manhattan_distance 10) = Some [(0, 0), (1, 0), (1, 1)]"
    by code_simp
  from ucs_astar_equal_length [OF m u a] m u a show ?thesis by blast
qed

text \<open>
  C6. In an environment whose four moves are unit steps, when neither search is stopped
  by the cap (the reported count does not exceed it), A* with the Manhattan distance
  reports no more expansions than uniform cost search, whatever identities the nodes of
  the two calls receive.
\<close>

theorem astar_expands_no_more:
  assumes "unit_moves e"
    and "nodes_expanded (snd (uniformcost_search ident start goal e cap)) \<le> cap"
    and "nodes_expanded (snd (astar_search ident' start goal e manhattan_distance cap)) \<le> cap"
  shows "nodes_expanded (snd (astar_search ident' start goal e manhattan_distance cap))
       \<le> nodes_expanded (snd (uniformcost_search ident start goal e cap))"
proof -
  let ?u = "uniformcost_search ident start goal e cap"
  let ?a = "astar_search ident' start goal e manhattan_distance cap"
  note con = manhattan_consistent [OF assms(1), of goal]
  show ?thesis
  proof (cases rule: ucs_result_elim [of ident start goal e cap])
    case (found ps C X)
    from found(2) have gr: "goal \<in> reachable e start" unfolding reachable_def by blast
    from con show ?thesis
    proof (cases rule: astar_result_elim [where ident = ident' and start = start and cap = cap])
      case (found qs D Y)
      from shortest_cost_unique [OF found(3) \<open>shortest_cost e start goal C\<close>] have DC: "D = C" .
      have "Y \<subseteq> X"
      proof
        fix p assume p: "p \<in> Y"
        from found(7) [OF p] obtain c where c: "shortest_cost e start p c"
          "c + manhattan_distance p goal \<le> D + manhattan_distance goal goal" by blast
        from p found(6) have "p \<noteq> goal" by blast
        from manhattan_pos [OF this] c(2) DC have "c < C" by (simp add: manhattan_goal)
        from \<open>\<And>p c. shortest_cost e start p c \<Longrightarrow> c < C \<Longrightarrow> p \<in> X\<close> [OF c(1) this]
        show "p \<in> X" .
      qed
      from card_mono [OF \<open>finite X\<close> this] found(5)
        \<open>nodes_expanded (snd ?u) = int (card X)\<close>
      show ?thesis by simp
    next
      case exhausted
      with gr show ?thesis by blast
    next
      case capped
      with assms(3) show ?thesis by simp
    qed
  next
    case exhausted
    from con show ?thesis
    proof (cases rule: astar_result_elim [where ident = ident' and start = start and cap = cap])
      case (found qs D Y)
      from found(2) exhausted(2) show ?thesis unfolding reachable_def by blast
    next
      case exhausted
      with \<open>nodes_expanded (snd ?u) = int (card (reachable e start))\<close> show ?thesis by simp
    next
      case capped
      with assms(3) show ?thesis by simp
    qed
  next
    case capped
    with assms(2) show ?thesis by simp
  qed
qed

theorem astar_expands_no_more_witness:
  "unit_moves (grid_env 2 2 [])
   \<and> nodes_expanded (snd (uniformcost_search (\<lambda>k. k) (0, 0) (1, 1) (grid_env 2 2 []) 10)) = 3
   \<and> nodes_expanded (snd (astar_search (\<lambda>k. 100 - k) (0, 0) (1, 1) (grid_env 2 2 [])
        manhattan_distance 10)) = 2
   \<and> nodes_expanded (snd (astar_search (\<lambda>k. 100 - k) (0, 0) (1, 1) (grid_env 2 2 [])
        manhattan_distance 10))
     \<le> nodes_expanded (snd (uniformcost_search (\<lambda>k. k) (0, 0) (1, 1) (grid_env 2 2 []) 10))"
proof -
  have m: "unit_moves (grid_env 2 2 [])" by (rule unit_moves_grid)
  have u: "nodes_expanded (snd (uniformcost_search (\<lambda>k. k) (0, 0) (1, 1)
       (grid_env 2 2 []) 10)) = 3"
    by code_simp
  have a: "nodes_expanded (snd (astar_search (\<lambda>k. 100 - k) (0, 0) (1, 1) (grid_env 2 2 [])
       manhattan_distance 10)) = 2"
    by code_simp
  have u': "nodes_expanded (snd (uniformcost_search (\<lambda>k. k) (0, 0) (1, 1)
       (grid_env 2 2 []) 10)) \<le> 10" using u by simp
  have a': "nodes_expanded (snd (astar_search (\<lambda>k. 100 - k) (0, 0) (1, 1) (grid_env 2 2 [])
       manhattan_distance 10)) \<le> 10" using a by simp
  from astar_expands_no_more [OF m u' a'] m u a show ?thesis by blast
qed

section \<open>Node identities and the order of pops\<close>

lemma ucs_expand_cong:
  "(\<And>j. k \<le> j \<Longrightarrow> j < k + length acts \<Longrightarrow> ident j = ident' j) \<Longrightarrow>
     ucs_expand e ex ident nd acts (fr, k) = ucs_expand e ex ident' nd acts (fr, k)"
proof (induction acts arbitrary: fr k)
  case Nil
  show ?case by (simp add: ucs_expand.simps)
next
  case (Cons a acts)
  have here: "ident k = ident' k" by (rule Cons.prems) simp_all
  have 1: "ucs_expand e ex ident nd acts (fr', k) = ucs_expand e ex ident' nd acts (fr', k)"
    for fr'
    by (rule Cons.IH) (rule Cons.prems, simp_all)
  have 2: "ucs_expand e ex ident nd acts (fr', Suc k) = ucs_expand e ex ident' nd acts (fr', Suc k)"
    for fr'
    by (rule Cons.IH) (rule Cons.prems, simp_all)
  show ?case
    by (simp add: ucs_expand.simps Let_def 1 2 here split: prod.splits)
qed

lemma astar_expand_cong:
  "(\<And>j. k \<le> j \<Longrightarrow> j < k + length acts \<Longrightarrow> ident j = ident' j) \<Longrightarrow>
     astar_expand e ex ident h goal nd acts (fr, k)
       = astar_expand e ex ident' h goal nd acts (fr, k)"
proof (induction acts arbitrary: fr k)
  case Nil
  show ?case by (simp add: astar_expand.simps)
next
  case (Cons a acts)
  have here: "ident k = ident' k" by (rule Cons.prems) simp_all
  have 1: "astar_expand e ex ident h goal nd acts (fr', k)
      = astar_expand e ex ident' h goal nd acts (fr', k)" for fr'
    by (rule Cons.IH) (rule Cons.prems, simp_all)
  have 2: "astar_expand e ex ident h goal nd acts (fr', Suc k)
      = astar_expand e ex ident' h goal nd acts (fr', Suc k)" for fr'
    by (rule Cons.IH) (rule Cons.prems, simp_all)
  show ?case
    by (simp add: astar_expand.simps Let_def 1 2 here split: prod.splits)
qed

lemma ucs_body_cong:
  assumes "expansions st + 1 \<le> cap \<Longrightarrow>
     (\<And>j. created st \<le> j \<Longrightarrow> j < created st + 4 \<Longrightarrow> ident j = ident' j)"
  shows "ucs_body ident goal e cap st = ucs_body ident' goal e cap st"
proof (cases "expansions st + 1 \<le> cap")
  case True
  have eq: "ucs_expand e ex ident nd [''N'', ''E'', ''S'', ''W''] (fr, created st)
      = ucs_expand e ex ident' nd [''N'', ''E'', ''S'', ''W''] (fr, created st)" for ex nd fr
    by (rule ucs_expand_cong) (rule assms [OF True], simp_all)
  show ?thesis unfolding ucs_body_def eq by (rule refl)
next
  case False
  then show ?thesis
    by (auto simp: ucs_body_def Let_def split: option.splits prod.splits)
qed

lemma astar_body_cong:
  assumes "expansions st + 1 \<le> cap \<Longrightarrow>
     (\<And>j. created st \<le> j \<Longrightarrow> j < created st + 4 \<Longrightarrow> ident j = ident' j)"
  shows "astar_body ident goal e h cap st = astar_body ident' goal e h cap st"
proof (cases "expansions st + 1 \<le> cap")
  case True
  have eq: "astar_expand e ex ident h goal nd [''N'', ''E'', ''S'', ''W''] (fr, created st)
      = astar_expand e ex ident' h goal nd [''N'', ''E'', ''S'', ''W''] (fr, created st)"
    for ex nd fr
    by (rule astar_expand_cong) (rule assms [OF True], simp_all)
  show ?thesis unfolding astar_body_def eq by (rule refl)
next
  case False
  then show ?thesis
    by (auto simp: astar_body_def Let_def split: option.splits prod.splits)
qed

lemma ucs_body_created:
  assumes "ucs_body ident goal e cap st = Inl st'"
  shows "created st' + 4 * nat (cap - expansions st')
       \<le> created st + 4 * nat (cap - expansions st)"
  using assms
proof (cases rule: ucs_body_InlE)
  case (stale cost i nd fr c)
  then show ?thesis by simp
next
  case (expand cost i nd fr fr' k)
  from ucs_expand_length [OF expand(5)] have "k \<le> created st + 4" by simp
  moreover from expand(4) have "nat (cap - expansions st) = Suc (nat (cap - (expansions st + 1)))"
    by linarith
  ultimately show ?thesis using expand(6) by simp
qed

lemma astar_body_created:
  assumes "astar_body ident goal e h cap st = Inl st'"
  shows "created st' + 4 * nat (cap - expansions st')
       \<le> created st + 4 * nat (cap - expansions st)"
  using assms
proof (cases rule: astar_body_InlE)
  case (stale f i nd fr)
  then show ?thesis by simp
next
  case (expand f i nd fr fr' k)
  from astar_expand_length [OF expand(5)] have "k \<le> created st + 4" by simp
  moreover from expand(4) have "nat (cap - expansions st) = Suc (nat (cap - (expansions st + 1)))"
    by linarith
  ultimately show ?thesis using expand(6) by simp
qed

lemma ucs_loop_cong:
  "(\<And>j. j < created st + 4 * nat (cap - expansions st) \<Longrightarrow> ident j = ident' j) \<Longrightarrow>
     ucs_loop ident goal e cap st = ucs_loop ident' goal e cap st"
proof (induction ident goal e cap st rule: ucs_loop.induct)
  case (1 ident goal e cap st)
  have b: "ucs_body ident goal e cap st = ucs_body ident' goal e cap st"
  proof (rule ucs_body_cong)
    fix j assume "expansions st + 1 \<le> cap" "created st \<le> j" "j < created st + 4"
    then have "j < created st + 4 * nat (cap - expansions st)" by linarith
    then show "ident j = ident' j" by (rule "1.prems")
  qed
  show ?case
  proof (cases "ucs_body ident goal e cap st")
    case (Inl st')
    have "ucs_loop ident goal e cap st' = ucs_loop ident' goal e cap st'"
    proof (rule "1.IH" [OF Inl])
      fix j assume "j < created st' + 4 * nat (cap - expansions st')"
      with ucs_body_created [OF Inl] have "j < created st + 4 * nat (cap - expansions st)"
        by linarith
      then show "ident j = ident' j" by (rule "1.prems")
    qed
    moreover from Inl b have "ucs_body ident' goal e cap st = Inl st'" by simp
    ultimately show ?thesis
      by (simp add: ucs_loop.simps [of ident goal e cap st]
          ucs_loop.simps [of ident' goal e cap st] Inl)
  next
    case (Inr r)
    moreover from Inr b have "ucs_body ident' goal e cap st = Inr r" by simp
    ultimately show ?thesis
      by (simp add: ucs_loop.simps [of ident goal e cap st]
          ucs_loop.simps [of ident' goal e cap st])
  qed
qed

lemma astar_loop_cong:
  "(\<And>j. j < created st + 4 * nat (cap - expansions st) \<Longrightarrow> ident j = ident' j) \<Longrightarrow>
     astar_loop ident goal e h cap st = astar_loop ident' goal e h cap st"
proof (induction ident goal e h cap st rule: astar_loop.induct)
  case (1 ident goal e h cap st)
  have b: "astar_body ident goal e h cap st = astar_body ident' goal e h cap st"
  proof (rule astar_body_cong)
    fix j assume "expansions st + 1 \<le> cap" "created st \<le> j" "j < created st + 4"
    then have "j < created st + 4 * nat (cap - expansions st)" by linarith
    then show "ident j = ident' j" by (rule "1.prems")
  qed
  show ?case
  proof (cases "astar_body ident goal e h cap st")
    case (Inl st')
    have "astar_loop ident goal e h cap st' = astar_loop ident' goal e h cap st'"
    proof (rule "1.IH" [OF Inl])
      fix j assume "j < created st' + 4 * nat (cap - expansions st')"
      with astar_body_created [OF Inl] have "j < created st + 4 * nat (cap - expansions st)"
        by linarith
      then show "ident j = ident' j" by (rule "1.prems")
    qed
    moreover from Inl b have "astar_body ident' goal e h cap st = Inl st'" by simp
    ultimately show ?thesis
      by (simp add: astar_loop.simps [of ident goal e h cap st]
          astar_loop.simps [of ident' goal e h cap st] Inl)
  next
    case (Inr r)
    moreover from Inr b have "astar_body ident' goal e h cap st = Inr r" by simp
    ultimately show ?thesis
      by (simp add: astar_loop.simps [of ident goal e h cap st]
          astar_loop.simps [of ident' goal e h cap st])
  qed
qed

lemma ucs_search_cong:
  assumes "\<And>j. j < 4 * nat cap + 1 \<Longrightarrow> ident j = ident' j"
  shows "uniformcost_search ident start goal e cap = uniformcost_search ident' start goal e cap"
proof -
  have 0: "ident 0 = ident' 0" by (rule assms) simp
  then have i: "ucs_init ident start = ucs_init ident' start" by (simp add: ucs_init_def)
  have "ucs_loop ident goal e cap (ucs_init ident start)
      = ucs_loop ident' goal e cap (ucs_init ident start)"
    by (rule ucs_loop_cong) (rule assms, simp add: ucs_init_def)
  with i show ?thesis by (simp add: uniformcost_search_init)
qed

lemma astar_search_cong:
  assumes "\<And>j. j < 4 * nat cap + 1 \<Longrightarrow> ident j = ident' j"
  shows "astar_search ident start goal e h cap = astar_search ident' start goal e h cap"
proof -
  have 0: "ident 0 = ident' 0" by (rule assms) simp
  then have i: "astar_init ident start goal h = astar_init ident' start goal h"
    by (simp add: astar_init_def)
  have "astar_loop ident goal e h cap (astar_init ident start goal h)
      = astar_loop ident' goal e h cap (astar_init ident start goal h)"
    by (rule astar_loop_cong) (rule assms, simp add: astar_init_def)
  with i show ?thesis by (simp add: astar_search_init)
qed

text \<open>
  C4, as the code has it. The second component of a frontier entry is \<open>id(node)\<close>, so a
  tie on the priority is broken in favour of the smaller identity: the entry popped is
  least in the order on (priority, identity). The result of a search is a function of the
  start, the goal, the environment, the cap and the identities of the at most
  \<open>4 * max_expansions + 1\<close> nodes that the call constructs: two calls in which these nodes
  receive the same identities return the same path and the same \<open>nodes_expanded\<close>,
  \<open>path_length\<close> and \<open>frontier_peak\<close>. The wall-clock entry \<open>time_ms\<close> is not modelled.
\<close>

theorem same_identities_same_result:
  assumes "\<forall>j < 4 * nat cap + 1. ident j = ident' j"
  shows "uniformcost_search ident start goal e cap = uniformcost_search ident' start goal e cap
       \<and> astar_search ident start goal e h cap = astar_search ident' start goal e h cap
       \<and> (\<forall>fr m rest. heappop fr = Some (m, rest) \<longrightarrow>
            m \<in> set fr
          \<and> (\<forall>x \<in> set fr. fst m < fst x \<or> (fst m = fst x \<and> fst (snd m) \<le> fst (snd x))))"
proof (intro conjI allI impI ballI)
  from assms show "uniformcost_search ident start goal e cap
      = uniformcost_search ident' start goal e cap"
    by (intro ucs_search_cong) blast
  from assms show "astar_search ident start goal e h cap
      = astar_search ident' start goal e h cap"
    by (intro astar_search_cong) blast
next
  fix fr m rest assume "heappop fr = Some (m, rest)"
  then show "m \<in> set fr" by (rule heappop_set(1))
next
  fix fr m rest x assume "heappop fr = Some (m, rest)" "x \<in> set fr"
  from heappop_least [OF this]
  show "fst m < fst x \<or> (fst m = fst x \<and> fst (snd m) \<le> fst (snd x))"
    by (simp add: entry_le_def)
qed

theorem same_identities_same_result_witness:
  "uniformcost_search (\<lambda>k. k) (0, 0) (1, 1) (grid_env 2 2 []) 2
     = uniformcost_search (\<lambda>k. if k < 9 then k else 0) (0, 0) (1, 1) (grid_env 2 2 []) 2
   \<and> astar_search (\<lambda>k. k) (0, 0) (1, 1) (grid_env 2 2 []) manhattan_distance 2
     = astar_search (\<lambda>k. if k < 9 then k else 0) (0, 0) (1, 1) (grid_env 2 2 [])
         manhattan_distance 2
   \<and> heappop [(1, 50, Node (0, 1) None None 1), (1, 2, Node (1, 0) None None 1)]
     = Some ((1, 2, Node (1, 0) None None 1), [(1, 50, Node (0, 1) None None 1)])
   \<and> (1 :: int, 2 :: nat, Node (1, 0) None None 1)
       \<in> set [(1, 50, Node (0, 1) None None 1), (1, 2, Node (1, 0) None None 1)]"
proof -
  have a: "\<forall>j < 4 * nat 2 + 1. (\<lambda>k. k) j = (\<lambda>k. if k < 9 then k else 0) j"
    by simp
  have p: "heappop [(1, 50, Node (0, 1) None None 1), (1, 2, Node (1, 0) None None 1)]
     = Some ((1, 2, Node (1, 0) None None 1), [(1, 50, Node (0, 1) None None 1)])"
    by (simp add: entry_le_def)
  note r = same_identities_same_result [OF a, of "(0, 0)" "(1, 1)" "grid_env 2 2 []"
      manhattan_distance]
  from r have 1: "uniformcost_search (\<lambda>k. k) (0, 0) (1, 1) (grid_env 2 2 []) 2
     = uniformcost_search (\<lambda>k. if k < 9 then k else 0) (0, 0) (1, 1) (grid_env 2 2 []) 2"
    by (rule conjunct1)
  from r have 2: "astar_search (\<lambda>k. k) (0, 0) (1, 1) (grid_env 2 2 []) manhattan_distance 2
     = astar_search (\<lambda>k. if k < 9 then k else 0) (0, 0) (1, 1) (grid_env 2 2 [])
         manhattan_distance 2"
    by (rule conjunct1 [OF conjunct2])
  from r p have 3: "(1 :: int, 2 :: nat, Node (1, 0) None None 1)
       \<in> set [(1, 50, Node (0, 1) None None 1), (1, 2, Node (1, 0) None None 1)]"
    by blast
  from 1 2 p 3 show ?thesis by (intro conjI)
qed

text \<open>
  The claim as stated fails. Ties are not broken by insertion order: on the open
  two-by-two grid, from \<open>(0, 0)\<close> to \<open>(1, 1)\<close>, the two children of the start have the same
  priority, and the one constructed second is popped first when its identity is the
  smaller one. The returned path and the expansion count then differ between two calls
  with the same start, goal, environment and cap.
\<close>

theorem identities_change_result:
  "uniformcost_search (\<lambda>k. k) (0, 0) (1, 1) (grid_env 2 2 []) 10 =
     (Some [(0, 0), (0, 1), (1, 1)],
      \<lparr>nodes_expanded = 3, path_length = Some 3, frontier_peak = 2\<rparr>)
   \<and> uniformcost_search (\<lambda>k. if k = 1 then 50 else k) (0, 0) (1, 1) (grid_env 2 2 []) 10 =
     (Some [(0, 0), (1, 0), (1, 1)],
      \<lparr>nodes_expanded = 3, path_length = Some 3, frontier_peak = 2\<rparr>)
   \<and> astar_search (\<lambda>k. k) (0, 0) (1, 1) (grid_env 2 2 []) manhattan_distance 10 =
     (Some [(0, 0), (0, 1), (1, 1)],
      \<lparr>nodes_expanded = 3, path_length = Some 3, frontier_peak = 2\<rparr>)
   \<and> astar_search (\<lambda>k. 100 - k) (0, 0) (1, 1) (grid_env 2 2 []) manhattan_distance 10 =
     (Some [(0, 0), (1, 0), (1, 1)],
      \<lparr>nodes_expanded = 2, path_length = Some 3, frontier_peak = 2\<rparr>)"
  by code_simp

end
